theory Spec2Isabelle
  imports Complex_Main "HOL-Library.Word"
begin

section \<open>Request authentication\<close>

subsection \<open>Strings as the verifier uses them\<close>

text \<open>
  A source string is modelled as a \<^typ>\<open>string\<close>; the operations below are the
  ECMAScript ones the verifier calls (\<^verbatim>\<open>trim\<close>, \<^verbatim>\<open>split\<close>,
  \<^verbatim>\<open>startsWith\<close>, \<^verbatim>\<open>substring\<close>), restricted to code units below 256.
\<close>

definition isWhiteSpace :: "char \<Rightarrow> bool" where
  "isWhiteSpace c =
     (c = CHR 0x09 \<or> c = CHR 0x0A \<or> c = CHR 0x0B \<or> c = CHR 0x0C \<or> c = CHR 0x0D \<or>
      c = CHR 0x20 \<or> c = CHR 0xA0)"

definition trim :: "string \<Rightarrow> string" where
  "trim s = rev (dropWhile isWhiteSpace (rev (dropWhile isWhiteSpace s)))"

text \<open>\<^verbatim>\<open>s.split(sep)\<close> for a one-character separator: never the empty list.\<close>

fun splitOn :: "char \<Rightarrow> string \<Rightarrow> string list" where
  "splitOn sep [] = [[]]"
| "splitOn sep (c # cs) =
     (if c = sep then [] # splitOn sep cs
      else (case splitOn sep cs of
              [] \<Rightarrow> [[c]]
            | p # ps \<Rightarrow> (c # p) # ps))"

definition startsWith :: "string \<Rightarrow> string \<Rightarrow> bool" where
  "startsWith s pre = (take (length pre) s = pre)"

subsection \<open>The nonce store\<close>

definition NONCE_TTL_MS :: int where
  "NONCE_TTL_MS = 5 * 60 * 1000"

type_synonym nonceStore = "string \<rightharpoonup> int"

record ParsedAuthHeader =
  apiKey :: string
  dateTime :: string
  nonce :: string
  signature :: string

definition cleanupExpiredNonces :: "int \<Rightarrow> nonceStore \<Rightarrow> nonceStore" where
  "cleanupExpiredNonces now nonceTimestamps =
     (\<lambda>n. case nonceTimestamps n of
            None \<Rightarrow> None
          | Some ts \<Rightarrow> if now - ts > NONCE_TTL_MS then None else Some ts)"

subsection \<open>Parsing the authorization value\<close>

text \<open>
  The loop over the comma-separated pieces: \<^verbatim>\<open>const [k, v] = kv.split('=')\<close> takes the
  first two pieces, and the pair is stored only when both are non-empty; a later pair
  with the same key overwrites an earlier one.
\<close>

definition storePair :: "(string \<rightharpoonup> string) \<Rightarrow> string \<Rightarrow> (string \<rightharpoonup> string)" where
  "storePair m kv =
     (case splitOn CHR ''='' kv of
        k # v # rest \<Rightarrow> if k \<noteq> [] \<and> v \<noteq> [] then m(k \<mapsto> v) else m
      | _ \<Rightarrow> m)"

definition parseAuthorizationHeader :: "string option \<Rightarrow> ParsedAuthHeader option" where
  "parseAuthorizationHeader header =
     (case header of
        None \<Rightarrow> None
      | Some h \<Rightarrow>
          if h = [] then None
          else
            let scheme = ''IW1-HMAC-SHA256'';
                trimmed = trim h
            in if \<not> startsWith trimmed scheme then None
               else
                 let parts = trim (drop (length scheme) trimmed);
                     kvs = map trim (splitOn CHR '','' parts);
                     m = foldl storePair Map.empty kvs
                 in (case m ''ApiKey'' of
                       None \<Rightarrow> None
                     | Some a \<Rightarrow>
                    (case m ''DateTime'' of
                       None \<Rightarrow> None
                     | Some d \<Rightarrow>
                    (case m ''Nonce'' of
                       None \<Rightarrow> None
                     | Some n \<Rightarrow>
                    (case m ''Signature'' of
                       None \<Rightarrow> None
                     | Some s \<Rightarrow>
                         Some \<lparr>apiKey = a, dateTime = d, nonce = n, signature = s\<rparr>)))))"

subsection \<open>The chained signature\<close>

type_synonym byte = "8 word"
type_synonym bytes = "byte list"

text \<open>
  \<^verbatim>\<open>Buffer.toString('hex')\<close>: two lowercase hexadecimal digits per byte, the high
  nibble first.
\<close>

definition hexDigit :: "nat \<Rightarrow> char" where
  "hexDigit n = ''0123456789abcdef'' ! (n mod 16)"

definition toHex :: "bytes \<Rightarrow> string" where
  "toHex bs = concat (map (\<lambda>b. [hexDigit (unat b div 16), hexDigit (unat b mod 16)]) bs)"

text \<open>
  HMAC-SHA256 and the UTF-8 encoder are the platform's (\<^verbatim>\<open>crypto.createHmac\<close>,
  \<^verbatim>\<open>Buffer.from(s, 'utf8')\<close>); the verifier is modelled for any pair of them.
\<close>

record Platform =
  hmacSha256 :: "bytes \<Rightarrow> bytes \<Rightarrow> bytes"
  utf8 :: "string \<Rightarrow> bytes"

definition generateSignatureCSharpCompatible :: "Platform \<Rightarrow> string list \<Rightarrow> string \<Rightarrow> string" where
  "generateSignatureCSharpCompatible pf vals secret =
     toHex (foldl (\<lambda>key s. hmacSha256 pf key (utf8 pf s)) (utf8 pf (''IW1'' @ secret)) vals)"

subsection \<open>Clock skew\<close>

definition isDigit :: "char \<Rightarrow> bool" where
  "isDigit c = (48 \<le> (of_char c :: nat) \<and> (of_char c :: nat) \<le> 57)"

text \<open>\<^verbatim>\<open>Number(s)\<close> on a string of decimal digits.\<close>

definition Number :: "string \<Rightarrow> int" where
  "Number s = foldl (\<lambda>a c. 10 * a + (int (of_char c) - 48)) 0 s"

text \<open>
  \<^verbatim>\<open>Date.UTC\<close> as ECMAScript defines it: a year from 0 to 99 means 1900 plus that
  year, a month outside 0..11 carries into the year, and the day of the month and the
  time of day are added without any range check.
\<close>

definition isLeapYear :: "int \<Rightarrow> bool" where
  "isLeapYear y = (y mod 4 = 0 \<and> (y mod 100 \<noteq> 0 \<or> y mod 400 = 0))"

definition DayFromYear :: "int \<Rightarrow> int" where
  "DayFromYear y = 365 * (y - 1970) + (y - 1969) div 4 - (y - 1901) div 100 + (y - 1601) div 400"

definition daysBeforeMonth :: "int \<Rightarrow> int \<Rightarrow> int" where
  "daysBeforeMonth y mn =
     sum_list (take (nat mn)
       [31, if isLeapYear y then 29 else 28, 31, 30, 31, 30, 31, 31, 30, 31, 30, 31])"

definition DateUTC :: "int \<Rightarrow> int \<Rightarrow> int \<Rightarrow> int \<Rightarrow> int \<Rightarrow> int \<Rightarrow> int" where
  "DateUTC y m d h mi s =
     (let yr = (if 0 \<le> y \<and> y \<le> 99 then 1900 + y else y);
          ym = yr + m div 12;
          mn = m mod 12;
          day = DayFromYear ym + daysBeforeMonth ym mn + d - 1
      in day * 86400000 + (h * 3600000 + mi * 60000 + s * 1000))"

text \<open>
  The first half of \<^verbatim>\<open>isDateTimeSkewAcceptable\<close>: the match against fourteen
  decimal digits and the conversion to milliseconds since the epoch.
\<close>

definition dateTimeToMillis :: "string \<Rightarrow> int option" where
  "dateTimeToMillis dt =
     (if length dt = 14 \<and> list_all isDigit dt then
        let y = Number (take 4 dt);
            mo = Number (take 2 (drop 4 dt));
            d = Number (take 2 (drop 6 dt));
            h = Number (take 2 (drop 8 dt));
            mi = Number (take 2 (drop 10 dt));
            s = Number (take 2 (drop 12 dt))
        in Some (DateUTC y (mo - 1) d h mi s)
      else None)"

text \<open>The first argument is the reading of \<^verbatim>\<open>Date.now()\<close> inside the function.\<close>

definition isDateTimeSkewAcceptable :: "int \<Rightarrow> string \<Rightarrow> bool" where
  "isDateTimeSkewAcceptable now dt =
     (case dateTimeToMillis dt of
        None \<Rightarrow> False
      | Some t \<Rightarrow> (let skew = \<bar>now - t\<bar> in skew \<le> NONCE_TTL_MS))"

subsection \<open>The verifier\<close>

record Credentials =
  credsApiKey :: string
  credsApiSecret :: string

datatype authError =
  MalformedHeader | NotConfigured | ApiKeyMismatch | SkewTooLarge | NonceReplayed | SignatureMismatch

text \<open>The message the source returns with each failure.\<close>

fun errorMessage :: "authError \<Rightarrow> string" where
  "errorMessage MalformedHeader = ''Missing or invalid Authorization''"
| "errorMessage NotConfigured =
     ''Server not configured for client auth (INWORLD_API_KEY missing/invalid)''"
| "errorMessage ApiKeyMismatch = ''ApiKey mismatch''"
| "errorMessage SkewTooLarge = ''DateTime skew too large''"
| "errorMessage NonceReplayed = ''Nonce replayed''"
| "errorMessage SignatureMismatch = ''Signature mismatch''"

datatype verifyResult = Ok | Failed authError

definition METHOD :: string where
  "METHOD = ''ai.inworld.engine.v1.SessionTokens/GenerateSessionToken''"

definition TAIL :: string where
  "TAIL = ''iw1_request''"

text \<open>
  \<^verbatim>\<open>verifyIncomingRequest\<close>. Its inputs: the authorization value the request carries
  (the header, or the decoded \<^verbatim>\<open>auth\<close> query parameter when there is no header), the
  request's \<^verbatim>\<open>host\<close> header (the empty string when it is absent), what
  \<^verbatim>\<open>getClientCredsFromInworldEnv\<close> returns, the two readings of the clock (the first
  inside \<^verbatim>\<open>isDateTimeSkewAcceptable\<close>, the second before the nonce check) and the
  nonce store. It returns the result and the store.
\<close>

definition verifyIncomingRequest ::
  "Platform \<Rightarrow> string option \<Rightarrow> string \<Rightarrow> Credentials option \<Rightarrow> int \<Rightarrow> int \<Rightarrow>
     nonceStore \<Rightarrow> verifyResult \<times> nonceStore" where
  "verifyIncomingRequest pf header host creds clock1 clock2 nonceTimestamps =
     (case parseAuthorizationHeader header of
        None \<Rightarrow> (Failed MalformedHeader, nonceTimestamps)
      | Some parsed \<Rightarrow>
     (case creds of
        None \<Rightarrow> (Failed NotConfigured, nonceTimestamps)
      | Some cr \<Rightarrow>
          if apiKey parsed \<noteq> credsApiKey cr then (Failed ApiKeyMismatch, nonceTimestamps)
          else if \<not> isDateTimeSkewAcceptable clock1 (dateTime parsed)
            then (Failed SkewTooLarge, nonceTimestamps)
          else
            let now = clock2;
                cleaned = cleanupExpiredNonces now nonceTimestamps
            in if cleaned (nonce parsed) \<noteq> None then (Failed NonceReplayed, cleaned)
               else
                 let vals = [dateTime parsed, host, METHOD, nonce parsed, TAIL];
                     expected = generateSignatureCSharpCompatible pf vals (credsApiSecret cr)
                 in if expected \<noteq> signature parsed then (Failed SignatureMismatch, cleaned)
                    else (Ok, cleaned(nonce parsed \<mapsto> now))))"

subsection \<open>The signature as the specification words it\<close>

text \<open>
  The five keys of the chain written out one by one, \<open>key0\<close> being the UTF-8 bytes of
  \<^verbatim>\<open>"IW1" + apiSecret\<close>, and the lowercase hexadecimal encoding of the last.
\<close>

definition chainedSignature ::
  "Platform \<Rightarrow> string \<Rightarrow> string \<Rightarrow> string \<Rightarrow> string \<Rightarrow> string \<Rightarrow> string \<Rightarrow> string" where
  "chainedSignature pf apiSecret v1 v2 v3 v4 v5 =
     (let key0 = utf8 pf (''IW1'' @ apiSecret);
          key1 = hmacSha256 pf key0 (utf8 pf v1);
          key2 = hmacSha256 pf key1 (utf8 pf v2);
          key3 = hmacSha256 pf key2 (utf8 pf v3);
          key4 = hmacSha256 pf key3 (utf8 pf v4);
          key5 = hmacSha256 pf key4 (utf8 pf v5)
      in toHex key5)"

section \<open>Sessions, upgrade tokens and connections\<close>

definition WS_TOKEN_TTL_MS :: int where
  "WS_TOKEN_TTL_MS = 5 * 60 * 1000"

record WsTokenRecord =
  token :: string
  expiresAt :: int

type_synonym wsTokenStore = "string \<rightharpoonup> WsTokenRecord"

text \<open>A transport handle is identified by a number.\<close>

type_synonym socket = nat

record ConnectionEntry =
  ws :: "socket option"

type_synonym connectionStore = "string \<rightharpoonup> ConnectionEntry"

text \<open>
  The handler of \<^verbatim>\<open>POST /create-session\<close>, once the request is authenticated: the two
  identifiers are the results of the two calls of \<^verbatim>\<open>uuidv4()\<close>, \<open>now\<close> is the
  reading of the clock.
\<close>

definition createSession ::
  "string \<Rightarrow> string \<Rightarrow> int \<Rightarrow> connectionStore \<times> wsTokenStore \<Rightarrow> connectionStore \<times> wsTokenStore" where
  "createSession sessionKey wsToken now stores =
     (case stores of
        (connections, wsTokens) \<Rightarrow>
          (connections(sessionKey \<mapsto> \<lparr>ws = None\<rparr>),
           wsTokens(sessionKey \<mapsto> \<lparr>token = wsToken, expiresAt = now + WS_TOKEN_TTL_MS\<rparr>)))"

text \<open>
  The token check of the upgrade handler. \<open>key\<close> and \<open>tok\<close> are the query
  parameters \<^verbatim>\<open>key\<close> and \<^verbatim>\<open>wsToken\<close> when they are strings; the check runs only when
  both are non-empty. It returns \<^verbatim>\<open>allowed\<close> and the token store. (A key that names a
  property every object inherits reads a record without a \<^verbatim>\<open>token\<close> field, which no
  presented token equals: the check fails as for a missing record.)
\<close>

definition redeemWsToken ::
  "string option \<Rightarrow> string option \<Rightarrow> int \<Rightarrow> wsTokenStore \<Rightarrow> bool \<times> wsTokenStore" where
  "redeemWsToken key tok now wsTokens =
     (case key of
        None \<Rightarrow> (False, wsTokens)
      | Some k \<Rightarrow>
     (case tok of
        None \<Rightarrow> (False, wsTokens)
      | Some t \<Rightarrow>
          if k \<noteq> [] \<and> t \<noteq> [] then
            (case wsTokens k of
               None \<Rightarrow> (False, wsTokens)
             | Some r \<Rightarrow>
                 if token r = t \<and> expiresAt r \<ge> now then (True, wsTokens(k := None))
                 else (False, wsTokens))
          else (False, wsTokens)))"

text \<open>
  The \<^verbatim>\<open>connection\<close> handler. \<^verbatim>\<open>connections\<close> is a plain object, so
  \<^verbatim>\<open>connections[key]\<close> is also defined for a key that names a property every object
  inherits (\<open>inherited\<close>); for such a key no entry of its own is created, and the
  handle is stored on the inherited value, outside the store.
\<close>

datatype connectionResult = ClosedKeyRequired | Bound

definition onConnection ::
  "(string \<Rightarrow> bool) \<Rightarrow> string option \<Rightarrow> socket \<Rightarrow> connectionStore \<Rightarrow>
     connectionResult \<times> connectionStore" where
  "onConnection inherited key sock connections =
     (case key of
        None \<Rightarrow> (ClosedKeyRequired, connections)
      | Some k \<Rightarrow>
          if k = [] then (ClosedKeyRequired, connections)
          else
            let c1 = (if connections k = None \<and> \<not> inherited k
                      then connections(k \<mapsto> \<lparr>ws = None\<rparr>) else connections)
            in (Bound,
                case c1 k of
                  None \<Rightarrow> c1
                | Some e \<Rightarrow> c1(k \<mapsto> e\<lparr>ws := Some sock\<rparr>)))"

text \<open>
  The \<^verbatim>\<open>close\<close> handler registered for a transport bound to \<open>key\<close>. It closes over
  the key only: the transport whose close event fires (\<open>sock\<close>) is not consulted.
\<close>

definition onClose ::
  "(string \<Rightarrow> bool) \<Rightarrow> string \<Rightarrow> socket \<Rightarrow> connectionStore \<Rightarrow> connectionStore" where
  "onClose inherited key sock connections =
     (if connections key \<noteq> None \<or> inherited key then connections(key := None)
      else connections)"

section \<open>The message handler\<close>

subsection \<open>Constants\<close>

definition INPUT_SAMPLE_RATE :: rat where
  "INPUT_SAMPLE_RATE = 16000"

definition PAUSE_DURATION_THRESHOLD_MS :: rat where
  "PAUSE_DURATION_THRESHOLD_MS = 650"

definition MIN_SPEECH_DURATION_MS :: rat where
  "MIN_SPEECH_DURATION_MS = 200"

definition FRAME_PER_BUFFER :: nat where
  "FRAME_PER_BUFFER = 1024"

subsection \<open>Messages, tasks and the handler's state\<close>

text \<open>
  A sample is a number as \<^verbatim>\<open>JSON.parse\<close> delivers it: a finite double, or an infinity
  (the literal \<^verbatim>\<open>1e999\<close> parses to \<^verbatim>\<open>Infinity\<close>). \<^verbatim>\<open>NaN\<close> is never parsed but can
  be computed. A finite double is represented by the rational it denotes, and the two
  zeros by 0. Frame values that are not numbers are not modelled.
\<close>

datatype number = Finite rat | PosInfinity | NegInfinity | NotANumber

text \<open>\<^verbatim>\<open>Math.abs\<close>, \<^verbatim>\<open>Math.max\<close> of two numbers, and the test \<^verbatim>\<open>x === 0\<close>.\<close>

fun numAbs :: "number \<Rightarrow> number" where
  "numAbs (Finite x) = Finite \<bar>x\<bar>"
| "numAbs PosInfinity = PosInfinity"
| "numAbs NegInfinity = PosInfinity"
| "numAbs NotANumber = NotANumber"

fun numMax :: "number \<Rightarrow> number \<Rightarrow> number" where
  "numMax NotANumber y = NotANumber"
| "numMax x NotANumber = NotANumber"
| "numMax PosInfinity y = PosInfinity"
| "numMax x PosInfinity = PosInfinity"
| "numMax NegInfinity y = y"
| "numMax x NegInfinity = x"
| "numMax (Finite a) (Finite b) = Finite (max a b)"

definition isZero :: "number \<Rightarrow> bool" where
  "isZero x = (x = Finite 0)"

text \<open>
  What the handler takes from the engine it runs on: the quotient of two finite doubles
  with a divisor other than zero (the exact quotient, rounded), and the largest number of
  arguments a call can spread; \<^verbatim>\<open>push(...data)\<close> with more elements throws a
  \<^verbatim>\<open>RangeError\<close>.
\<close>

record Engine =
  fdiv :: "rat \<Rightarrow> rat \<Rightarrow> number"
  spreadLimit :: nat

text \<open>
  The operator \<^verbatim>\<open>/\<close> on numbers: the special cases of IEEE 754, else the engine's
  quotient. A zero divisor is read as the positive zero; \<^verbatim>\<open>normalizeAudio\<close> never divides
  by a zero.
\<close>

fun numDiv :: "Engine \<Rightarrow> number \<Rightarrow> number \<Rightarrow> number" where
  "numDiv eng NotANumber y = NotANumber"
| "numDiv eng x NotANumber = NotANumber"
| "numDiv eng PosInfinity PosInfinity = NotANumber"
| "numDiv eng PosInfinity NegInfinity = NotANumber"
| "numDiv eng NegInfinity PosInfinity = NotANumber"
| "numDiv eng NegInfinity NegInfinity = NotANumber"
| "numDiv eng PosInfinity (Finite m) = (if m < 0 then NegInfinity else PosInfinity)"
| "numDiv eng NegInfinity (Finite m) = (if m < 0 then PosInfinity else NegInfinity)"
| "numDiv eng (Finite x) PosInfinity = Finite 0"
| "numDiv eng (Finite x) NegInfinity = Finite 0"
| "numDiv eng (Finite x) (Finite m) =
     (if m = 0 then (if x = 0 then NotANumber else if x < 0 then NegInfinity else PosInfinity)
      else fdiv eng x m)"

text \<open>
  An inbound message after \<^verbatim>\<open>JSON.parse\<close>: its \<^verbatim>\<open>type\<close> tag and the fields the
  handler reads. \<^verbatim>\<open>audio\<close> is a list of frames, each the list of the values of one frame
  object.
\<close>

record Message =
  msgType :: string
  msgText :: string
  msgImage :: string
  msgVoiceId :: "string option"
  msgAudio :: "number list list"

text \<open>
  A queued task is a closure over its input: \<^verbatim>\<open>executeGraph\<close> on a text input,
  \<^verbatim>\<open>executeGraph\<close> on an audio input (key, samples, interaction id), or
  \<^verbatim>\<open>executeImageChat\<close>.
\<close>

datatype task =
  ExecuteGraphText string string string
| ExecuteGraphAudio string "number list" string
| ExecuteImageChat string string string "string option" string

datatype outcome = Resolved | Rejected

text \<open>
  The first five fields are the fields of the class. The others record what the handler
  did to its surroundings: the tasks it has called and whose promise is still pending,
  every task it has called so far in call order, the failures its queue loop caught, the
  batches it passed to the voice-activity classifier, and the packets given to
  \<^verbatim>\<open>send\<close>.
\<close>

record MessageHandler =
  pauseDuration :: rat
  isCapturingSpeech :: bool
  speechBuffer :: "number list"
  processingQueue :: "task list"
  isProcessing :: bool
  executing :: "task list"
  started :: "task list"
  caught :: "task list"
  classified :: "number list list"
  sent :: "string list"

definition newMessageHandler :: MessageHandler where
  "newMessageHandler =
     \<lparr>pauseDuration = 0, isCapturingSpeech = False, speechBuffer = [], processingQueue = [],
      isProcessing = False, executing = [], started = [], caught = [], classified = [],
      sent = []\<rparr>"

subsection \<open>The serial task queue\<close>

text \<open>
  One turn of the loop of \<^verbatim>\<open>processQueue\<close>, from the loop test to the next
  \<^verbatim>\<open>await task()\<close>: with an empty queue the loop ends and the flag is cleared, otherwise
  the first task is shifted off the queue and called, and the loop waits for it.
\<close>

definition drain :: "MessageHandler \<Rightarrow> MessageHandler" where
  "drain h =
     (case processingQueue h of
        [] \<Rightarrow> h\<lparr>isProcessing := False\<rparr>
      | t # rest \<Rightarrow>
          h\<lparr>processingQueue := rest, executing := executing h @ [t], started := started h @ [t]\<rparr>)"

definition processQueue :: "MessageHandler \<Rightarrow> MessageHandler" where
  "processQueue h = (if isProcessing h then h else drain (h\<lparr>isProcessing := True\<rparr>))"

definition addToQueue :: "task \<Rightarrow> MessageHandler \<Rightarrow> MessageHandler" where
  "addToQueue t h = processQueue (h\<lparr>processingQueue := processingQueue h @ [t]\<rparr>)"

text \<open>
  The promise of a called task settles: the loop that awaits it resumes, logs a
  rejection, and takes its next turn. Only a pending task can settle.
\<close>

definition taskSettled :: "task \<Rightarrow> outcome \<Rightarrow> MessageHandler \<Rightarrow> MessageHandler" where
  "taskSettled t oc h =
     (if t \<in> set (executing h) then
        drain (h\<lparr>executing := remove1 t (executing h),
                 caught := (if oc = Rejected then caught h @ [t] else caught h)\<rparr>)
      else h)"

text \<open>A pending task hands a packet to \<^verbatim>\<open>send\<close>.\<close>

definition taskSends :: "task \<Rightarrow> string \<Rightarrow> MessageHandler \<Rightarrow> MessageHandler" where
  "taskSends t packet h = (if t \<in> set (executing h) then h\<lparr>sent := sent h @ [packet]\<rparr> else h)"

subsection \<open>Audio segmentation\<close>

text \<open>The first loop of \<^verbatim>\<open>normalizeAudio\<close>: the maximum absolute value, from 0.\<close>

definition maxAbs :: "number list \<Rightarrow> number" where
  "maxAbs audioBuffer = foldl (\<lambda>maxVal x. numMax maxVal (numAbs x)) (Finite 0) audioBuffer"

definition normalizeAudio :: "Engine \<Rightarrow> number list \<Rightarrow> number list" where
  "normalizeAudio eng audioBuffer =
     (let maxVal = maxAbs audioBuffer
      in if isZero maxVal then audioBuffer else map (\<lambda>x. numDiv eng x maxVal) audioBuffer)"

definition processCapturedSpeech ::
  "Engine \<Rightarrow> string \<Rightarrow> string \<Rightarrow> MessageHandler \<Rightarrow> MessageHandler" where
  "processCapturedSpeech eng key interactionId h =
     addToQueue (ExecuteGraphAudio key (normalizeAudio eng (speechBuffer h)) interactionId)
       (h\<lparr>speechBuffer := []\<rparr>)"

text \<open>
  \<^verbatim>\<open>handleMessage\<close>, for a message, the session key, the interaction id drawn for the
  message and the answer of the voice-activity classifier (read only when the classifier
  is called; \<open>-1\<close> means no voice). The handler's fields are read and written after
  the classifier has answered, in one step. The result is the error thrown, if any, and
  the handler as the call leaves it. Where \<^verbatim>\<open>this.speechBuffer.push(...)\<close> throws, the
  call ends there and its promise is rejected with a \<^verbatim>\<open>RangeError\<close>; the handler is then
  as the throw leaves it: only the classifier has been called while capturing, and
  \<^verbatim>\<open>isCapturingSpeech\<close> is already set when the capture was about to start. The heap is
  taken to be large enough for the buffer.
\<close>

datatype error = RangeError

definition pushThrows :: "Engine \<Rightarrow> number list \<Rightarrow> bool" where
  "pushThrows eng audioBuffer = (length audioBuffer > spreadLimit eng)"

definition handleMessage ::
  "Engine \<Rightarrow> Message \<Rightarrow> string \<Rightarrow> string \<Rightarrow> int \<Rightarrow> MessageHandler \<Rightarrow>
     error option \<times> MessageHandler" where
  "handleMessage eng message key interactionId vadResult h =
     (if msgType message = ''text'' then
        (None, addToQueue (ExecuteGraphText key (msgText message) interactionId) h)
      else if msgType message = ''imageChat'' then
        (None,
         addToQueue
           (ExecuteImageChat key (msgText message) (msgImage message) (msgVoiceId message)
              interactionId) h)
      else if msgType message = ''audio'' then
        (let audioBuffer = concat (msgAudio message)
         in if length audioBuffer \<ge> FRAME_PER_BUFFER then
              (let h1 = h\<lparr>classified := classified h @ [audioBuffer]\<rparr>
               in if isCapturingSpeech h1 then
                    (if pushThrows eng audioBuffer then (Some RangeError, h1)
                     else
                       (let h2 = h1\<lparr>speechBuffer := speechBuffer h1 @ audioBuffer\<rparr>
                        in if vadResult = - 1 then
                             (let h3 = h2\<lparr>pauseDuration := pauseDuration h2 +
                                    (of_nat (length audioBuffer) * 2000) / INPUT_SAMPLE_RATE\<rparr>
                              in if pauseDuration h3 > PAUSE_DURATION_THRESHOLD_MS then
                                   (let h4 = h3\<lparr>isCapturingSpeech := False\<rparr>;
                                        speechDuration =
                                          (of_nat (length (speechBuffer h4)) * 2000) /
                                            INPUT_SAMPLE_RATE
                                    in if speechDuration > MIN_SPEECH_DURATION_MS then
                                         (None, processCapturedSpeech eng key interactionId h4)
                                       else (None, h4))
                                 else (None, h3))
                           else (None, h2\<lparr>pauseDuration := 0\<rparr>)))
                  else if vadResult \<noteq> - 1 then
                    (let h2 = h1\<lparr>isCapturingSpeech := True\<rparr>
                     in if pushThrows eng audioBuffer then (Some RangeError, h2)
                        else (None, h2\<lparr>speechBuffer := speechBuffer h2 @ audioBuffer,
                                       pauseDuration := 0\<rparr>))
                  else (None, h1))
            else (None, h))
      else if msgType message = ''audioSessionEnd'' then
        (let h1 = h\<lparr>pauseDuration := 0, isCapturingSpeech := False\<rparr>
         in if length (speechBuffer h1) > 0 then
              (None, processCapturedSpeech eng key interactionId h1)
            else (None, h1))
      else (None, h))"

subsection \<open>Runs\<close>

text \<open>
  What happens to a handler: a message is handled, a pending task sends a packet, the
  promise of a pending task settles. A run goes on from the handler as each call leaves
  it, also when the call threw: the server starts \<^verbatim>\<open>handleMessage\<close> without awaiting or
  catching its promise, and in a process that ends on the unhandled rejection no event
  follows the throw.
\<close>

datatype event =
  Inbound Message string string int
| Sends task string
| Settles task outcome

fun step :: "Engine \<Rightarrow> event \<Rightarrow> MessageHandler \<Rightarrow> MessageHandler" where
  "step eng (Inbound message key interactionId vadResult) h =
     snd (handleMessage eng message key interactionId vadResult h)"
| "step eng (Sends t packet) h = taskSends t packet h"
| "step eng (Settles t oc) h = taskSettled t oc h"

definition run :: "Engine \<Rightarrow> event list \<Rightarrow> MessageHandler \<Rightarrow> MessageHandler" where
  "run eng evs h = fold (step eng) evs h"

definition audioMessage :: "number list list \<Rightarrow> Message" where
  "audioMessage frames =
     \<lparr>msgType = ''audio'', msgText = [], msgImage = [], msgVoiceId = None, msgAudio = frames\<rparr>"

text \<open>The queue on its own: tasks are added, and pending tasks settle.\<close>

datatype queueOp = Enqueue task | Settled task outcome

fun queueStep :: "queueOp \<Rightarrow> MessageHandler \<Rightarrow> MessageHandler" where
  "queueStep (Enqueue t) h = addToQueue t h"
| "queueStep (Settled t oc) h = taskSettled t oc h"

fun enqueuedBy :: "queueOp list \<Rightarrow> task list" where
  "enqueuedBy [] = []"
| "enqueuedBy (Enqueue t # ops) = t # enqueuedBy ops"
| "enqueuedBy (Settled t oc # ops) = enqueuedBy ops"

text \<open>
  What the queue loop maintains: at most one called task is pending, it is the task called
  last, the flag is set exactly while a task is pending, and tasks wait in the queue only
  while one is pending.
\<close>

definition serial :: "MessageHandler \<Rightarrow> bool" where
  "serial h =
     (length (executing h) \<le> 1 \<and>
      (executing h = [] \<or> (started h \<noteq> [] \<and> executing h = [last (started h)])) \<and>
      isProcessing h = (executing h \<noteq> []) \<and>
      (executing h = [] \<longrightarrow> processingQueue h = []))"

definition queueRun :: "queueOp list \<Rightarrow> MessageHandler" where
  "queueRun ops = fold queueStep ops newMessageHandler"

subsection \<open>Vocabulary for the segmenter's properties\<close>

text \<open>The duration in milliseconds that the handler assigns to a number of samples.\<close>

definition durationMs :: "nat \<Rightarrow> rat" where
  "durationMs n = (of_nat n * 2000) / INPUT_SAMPLE_RATE"

text \<open>
  An audio event that reaches the classifier and whose batch the engine can push, answered
  voice-present (any answer but \<open>-1\<close>) or no-voice (\<open>-1\<close>); an event whose samples
  the engine can push; and the samples a list of events carries.
\<close>

fun voicePresent :: "Engine \<Rightarrow> event \<Rightarrow> bool" where
  "voicePresent eng (Inbound m k i r) =
     (msgType m = ''audio'' \<and> length (concat (msgAudio m)) \<ge> FRAME_PER_BUFFER \<and>
      \<not> pushThrows eng (concat (msgAudio m)) \<and> r \<noteq> - 1)"
| "voicePresent eng (Sends t p) = False"
| "voicePresent eng (Settles t oc) = False"

fun noVoice :: "Engine \<Rightarrow> event \<Rightarrow> bool" where
  "noVoice eng (Inbound m k i r) =
     (msgType m = ''audio'' \<and> length (concat (msgAudio m)) \<ge> FRAME_PER_BUFFER \<and>
      \<not> pushThrows eng (concat (msgAudio m)) \<and> r = - 1)"
| "noVoice eng (Sends t p) = False"
| "noVoice eng (Settles t oc) = False"

fun fits :: "Engine \<Rightarrow> event \<Rightarrow> bool" where
  "fits eng (Inbound m k i r) = (\<not> pushThrows eng (concat (msgAudio m)))"
| "fits eng (Sends t p) = True"
| "fits eng (Settles t oc) = True"

fun samplesOf :: "event list \<Rightarrow> number list" where
  "samplesOf [] = []"
| "samplesOf (Inbound m k i r # evs) = concat (msgAudio m) @ samplesOf evs"
| "samplesOf (Sends t p # evs) = samplesOf evs"
| "samplesOf (Settles t oc # evs) = samplesOf evs"

fun isFinite :: "number \<Rightarrow> bool" where
  "isFinite (Finite x) = True"
| "isFinite PosInfinity = False"
| "isFinite NegInfinity = False"
| "isFinite NotANumber = False"

fun ratOf :: "number \<Rightarrow> rat" where
  "ratOf (Finite x) = x"
| "ratOf PosInfinity = 0"
| "ratOf NegInfinity = 0"
| "ratOf NotANumber = 0"

text \<open>
  What IEEE 754 division gives when the dividend is no larger in magnitude than a positive
  divisor: a finite quotient of magnitude at most 1, and of magnitude exactly 1 when the
  magnitudes are equal.
\<close>

definition boundedQuotient :: "Engine \<Rightarrow> bool" where
  "boundedQuotient eng =
     (\<forall>y m. 0 < m \<and> \<bar>y\<bar> \<le> m \<longrightarrow>
        (\<exists>q. fdiv eng y m = Finite q \<and> \<bar>q\<bar> \<le> 1 \<and> (\<bar>y\<bar> = m \<longrightarrow> \<bar>q\<bar> = 1)))"

text \<open>
  While speech is captured the pause accumulator never exceeds the duration of the buffer,
  because every batch that adds to the accumulator was appended to the buffer first.
\<close>

definition captureInvariant :: "MessageHandler \<Rightarrow> bool" where
  "captureInvariant h =
     (isCapturingSpeech h \<longrightarrow> pauseDuration h \<le> durationMs (length (speechBuffer h)))"

text \<open>The number of settlements in a sequence of queue events.\<close>

fun settlements :: "queueOp list \<Rightarrow> nat" where
  "settlements [] = 0"
| "settlements (Enqueue t # ops) = settlements ops"
| "settlements (Settled t oc # ops) = Suc (settlements ops)"

section \<open>Sample inputs\<close>

text \<open>
  A stand-in for the platform's primitives, used to evaluate the verifier: its MAC is the
  length of key plus message followed by a fixed byte, its encoder maps each character to
  its code.
\<close>

definition samplePlatform :: Platform where
  "samplePlatform = \<lparr>hmacSha256 = (\<lambda>key msg. [of_nat (length key + length msg), 0xAB]),
                      utf8 = map of_char\<rparr>"

definition sampleCreds :: Credentials where
  "sampleCreds = \<lparr>credsApiKey = ''key'', credsApiSecret = ''secret''\<rparr>"

definition sampleHeader :: string where
  "sampleHeader =
     ''IW1-HMAC-SHA256 ApiKey=key,DateTime=20261103120000,Nonce=n1,Signature=0dab''"

definition wrongKeyHeader :: string where
  "wrongKeyHeader =
     ''IW1-HMAC-SHA256 ApiKey=other,DateTime=20261103120000,Nonce=n1,Signature=0dab''"

definition wrongSignatureHeader :: string where
  "wrongSignatureHeader =
     ''IW1-HMAC-SHA256 ApiKey=key,DateTime=20261103120000,Nonce=n1,Signature=0000''"

definition objectPrototypeKey :: "string \<Rightarrow> bool" where
  "objectPrototypeKey k =
     (k = ''__proto__'' \<or> k = ''constructor'' \<or> k = ''toString'' \<or> k = ''valueOf'' \<or>
      k = ''hasOwnProperty'' \<or> k = ''isPrototypeOf'' \<or> k = ''propertyIsEnumerable'' \<or>
      k = ''toLocaleString'' \<or> k = ''__defineGetter__'' \<or> k = ''__defineSetter__'' \<or>
      k = ''__lookupGetter__'' \<or> k = ''__lookupSetter__'')"

text \<open>
  An engine with the exact quotient and a limit of 125000 spread arguments; batches with
  their classifier answers.
\<close>

definition sampleEngine :: Engine where
  "sampleEngine = \<lparr>fdiv = (\<lambda>x m. Finite (x / m)), spreadLimit = 125000\<rparr>"

definition voiceBatch :: event where
  "voiceBatch =
     Inbound (audioMessage [replicate 1024 (Finite (1 / 2))]) ''session'' ''interaction-1'' 0"

definition silentBatch :: event where
  "silentBatch =
     Inbound (audioMessage [replicate 1024 (Finite 0)]) ''session'' ''interaction-2'' (- 1)"

definition halfBatch :: event where
  "halfBatch =
     Inbound (audioMessage [replicate 512 (Finite 1)]) ''session'' ''interaction-3'' 0"

definition overflowBatch :: event where
  "overflowBatch =
     Inbound (audioMessage [PosInfinity # replicate 1023 (Finite (1 / 2))]) ''session''
       ''interaction-5'' 0"

definition oversizedSilence :: event where
  "oversizedSilence =
     Inbound (audioMessage [replicate 130000 (Finite 0)]) ''session'' ''interaction-6'' (- 1)"

definition oversizedVoice :: event where
  "oversizedVoice =
     Inbound (audioMessage [replicate 130000 (Finite (1 / 2))]) ''session'' ''interaction-7'' 0"

definition pingMessage :: Message where
  "pingMessage =
     \<lparr>msgType = ''ping'', msgText = ''hello'', msgImage = [], msgVoiceId = None,
      msgAudio = [[Finite 1]]\<rparr>"

text \<open>A capturing state with an empty buffer and 600 ms of pause on its accumulator.\<close>

definition pausedCapture :: MessageHandler where
  "pausedCapture = newMessageHandler\<lparr>isCapturingSpeech := True, pauseDuration := 600\<rparr>"

definition sampleOps :: "queueOp list" where
  "sampleOps =
     [Enqueue (ExecuteGraphText ''session'' ''one'' ''interaction-1''),
      Enqueue (ExecuteGraphText ''session'' ''two'' ''interaction-2''),
      Settled (ExecuteGraphText ''session'' ''one'' ''interaction-1'') Rejected,
      Enqueue (ExecuteGraphText ''session'' ''three'' ''interaction-3''),
      Settled (ExecuteGraphText ''session'' ''two'' ''interaction-2'') Resolved]"

definition waitingOps :: "queueOp list" where
  "waitingOps =
     [Enqueue (ExecuteGraphText ''session'' ''one'' ''interaction-1''),
      Enqueue (ExecuteGraphText ''session'' ''two'' ''interaction-2''),
      Enqueue (ExecuteGraphText ''session'' ''three'' ''interaction-3'')]"

section \<open>Properties of request authentication\<close>

lemma parse_sampleHeader:
  "parseAuthorizationHeader (Some sampleHeader) =
     Some \<lparr>apiKey = ''key'', dateTime = ''20261103120000'', nonce = ''n1'', signature = ''0dab''\<rparr>"
  by (simp add: sampleHeader_def parseAuthorizationHeader_def startsWith_def trim_def
      isWhiteSpace_def storePair_def Let_def)

lemma millis_sample: "dateTimeToMillis ''20261103120000'' = Some 1793707200000"
  by (simp add: dateTimeToMillis_def isDigit_def Number_def DateUTC_def DayFromYear_def
      daysBeforeMonth_def isLeapYear_def Let_def)

lemma sample_signature:
  "generateSignatureCSharpCompatible samplePlatform
     [''20261103120000'', ''localhost'', METHOD, ''n1'', TAIL] ''secret'' = ''0dab''"
  by (simp add: generateSignatureCSharpCompatible_def samplePlatform_def toHex_def hexDigit_def
      TAIL_def METHOD_def)

lemma toHex_alphabet: "set (toHex bs) \<subseteq> set ''0123456789abcdef''"
proof -
  have "hexDigit n \<in> set ''0123456789abcdef''" for n
    unfolding hexDigit_def by (rule nth_mem) simp
  then show ?thesis
    by (auto simp: toHex_def)
qed

lemma toHex_length: "length (toHex bs) = 2 * length bs"
  by (induction bs) (simp_all add: toHex_def)

lemma verify_failure_store:
  assumes "fst (verifyIncomingRequest pf header host creds c1 c2 ns) = Failed e"
  shows "snd (verifyIncomingRequest pf header host creds c1 c2 ns) = ns \<or>
         snd (verifyIncomingRequest pf header host creds c1 c2 ns) = cleanupExpiredNonces c2 ns"
  using assms
  by (auto simp: verifyIncomingRequest_def Let_def split: option.splits if_splits)

lemma cleanup_keeps_recent:
  "ns n = Some ts \<Longrightarrow> now - ts \<le> NONCE_TTL_MS \<Longrightarrow> cleanupExpiredNonces now ns n = Some ts"
  by (simp add: cleanupExpiredNonces_def)

lemma cleanup_absent: "ns n = None \<Longrightarrow> cleanupExpiredNonces now ns n = None"
  by (simp add: cleanupExpiredNonces_def)

lemma cleanup_subset: "cleanupExpiredNonces now ns n = Some ts \<Longrightarrow> ns n = Some ts"
  by (auto simp: cleanupExpiredNonces_def split: option.splits if_splits)

text \<open>
  Claim C8, as amended. When the authorization value parses, credentials are configured
  and the presented key equals the configured one, a date whose distance from the clock
  exceeds the replay window makes the verifier return the skew failure and leave the
  nonce store as it was, whatever the signature, the host and the platform's MAC are.
\<close>

theorem skew_rejected:
  assumes "parseAuthorizationHeader header = Some p"
    and "creds = Some cr"
    and "apiKey p = credsApiKey cr"
    and "dateTimeToMillis (dateTime p) = Some t"
    and "\<bar>clock1 - t\<bar> > NONCE_TTL_MS"
  shows "verifyIncomingRequest pf header host creds clock1 clock2 ns = (Failed SkewTooLarge, ns)"
  using assms
  by (simp add: verifyIncomingRequest_def isDateTimeSkewAcceptable_def Let_def)

lemma verify_accepts_iff:
  assumes "parseAuthorizationHeader header = Some p"
    and "apiKey p = credsApiKey cr"
    and "isDateTimeSkewAcceptable c1 (dateTime p)"
    and "cleanupExpiredNonces c2 ns (nonce p) = None"
  shows "(fst (verifyIncomingRequest pf header host (Some cr) c1 c2 ns) = Ok) =
         (signature p = generateSignatureCSharpCompatible pf
            [dateTime p, host, METHOD, nonce p, TAIL] (credsApiSecret cr))"
  using assms by (auto simp: verifyIncomingRequest_def Let_def)

text \<open>
  Claim C4. For every secret and every five values, the signature the verifier computes is
  the lowercase hexadecimal encoding of the fifth key of the chain, each key being the MAC
  of the next value under the previous key and the first key the bytes of
  \<^verbatim>\<open>"IW1" + apiSecret\<close>; and once the earlier checks have passed, the verifier accepts
  exactly the requests whose signature is that chain over the request's date, the host,
  the method name, the nonce and the tail constant.
\<close>

theorem expected_signature_chained:
  "generateSignatureCSharpCompatible pf [dt, host, methodName, nc, tailConstant] apiSecret =
     chainedSignature pf apiSecret dt host methodName nc tailConstant \<and>
   (\<forall>header p cr c1 c2 ns.
      parseAuthorizationHeader header = Some p \<and> apiKey p = credsApiKey cr \<and>
      isDateTimeSkewAcceptable c1 (dateTime p) \<and> cleanupExpiredNonces c2 ns (nonce p) = None \<longrightarrow>
      (fst (verifyIncomingRequest pf header host (Some cr) c1 c2 ns) = Ok) =
      (signature p =
         chainedSignature pf (credsApiSecret cr) (dateTime p) host METHOD (nonce p) TAIL))"
proof -
  have chain: "generateSignatureCSharpCompatible pf [a, b, c, d, e] sec =
      chainedSignature pf sec a b c d e" for a b c d e sec
    by (simp add: generateSignatureCSharpCompatible_def chainedSignature_def Let_def)
  show ?thesis
    using verify_accepts_iff [of _ _ _ _ _ _ pf host] by (simp add: chain)
qed

text \<open>
  The chain evaluated on the sample platform, and the sample request accepted.
\<close>

theorem expected_signature_chained_witness:
  "chainedSignature samplePlatform ''secret'' ''20261103120000'' ''localhost'' METHOD ''n1'' TAIL
     = ''0dab'' \<and>
   fst (verifyIncomingRequest samplePlatform (Some sampleHeader) ''localhost'' (Some sampleCreds)
          1793707200000 1793707200000 Map.empty) = Ok"
proof -
  note inst = expected_signature_chained [of samplePlatform "''20261103120000''" "''localhost''"
      METHOD "''n1''" TAIL "''secret''"]
  have sig: "chainedSignature samplePlatform ''secret'' ''20261103120000'' ''localhost'' METHOD
      ''n1'' TAIL = ''0dab''"
    using inst sample_signature by simp
  have acc: "isDateTimeSkewAcceptable 1793707200000 ''20261103120000''"
    by (simp add: isDateTimeSkewAcceptable_def millis_sample NONCE_TTL_MS_def)
  have "fst (verifyIncomingRequest samplePlatform (Some sampleHeader) ''localhost''
      (Some sampleCreds) 1793707200000 1793707200000 Map.empty) = Ok"
    using inst [THEN conjunct2, rule_format, of "Some sampleHeader" _ sampleCreds
        1793707200000 1793707200000 Map.empty] parse_sampleHeader acc sig
    by (simp add: sampleCreds_def cleanupExpiredNonces_def)
  with sig show ?thesis by simp
qed

text \<open>
  The sample request, five minutes and one millisecond after its date.
\<close>

theorem skew_rejected_witness:
  "verifyIncomingRequest samplePlatform (Some sampleHeader) ''localhost'' (Some sampleCreds)
     1793707500001 1793707500001 Map.empty = (Failed SkewTooLarge, Map.empty)"
  using skew_rejected [OF parse_sampleHeader refl _ _ _, of sampleCreds 1793707200000
      1793707500001 samplePlatform "''localhost''" 1793707500001 Map.empty] millis_sample
  by (simp add: sampleCreds_def NONCE_TTL_MS_def)

lemma parse_wrongKeyHeader:
  "parseAuthorizationHeader (Some wrongKeyHeader) =
     Some \<lparr>apiKey = ''other'', dateTime = ''20261103120000'', nonce = ''n1'', signature = ''0dab''\<rparr>"
  by (simp add: wrongKeyHeader_def parseAuthorizationHeader_def startsWith_def trim_def
      isWhiteSpace_def storePair_def Let_def)

text \<open>
  Claim C8 as stated fails: with the same stale date and a key other than the configured
  one, the verifier reports the key mismatch, which it checks first.
\<close>

theorem skew_not_reported_counterexample:
  "dateTimeToMillis ''20261103120000'' = Some 1793707200000 \<and>
   \<bar>1793707500001 - 1793707200000\<bar> > NONCE_TTL_MS \<and>
   fst (verifyIncomingRequest samplePlatform (Some wrongKeyHeader) ''localhost''
          (Some sampleCreds) 1793707500001 1793707500001 Map.empty) = Failed ApiKeyMismatch"
  by (simp add: millis_sample NONCE_TTL_MS_def verifyIncomingRequest_def
      parse_wrongKeyHeader sampleCreds_def)

text \<open>
  Claim C1, as amended. A request with the configured key, an acceptable date, the right
  signature and a nonce that is not in the store is accepted, and the nonce is recorded at
  the time of the second clock reading; a later request with the same nonce that passes
  the checks before the nonce check, made no more than the replay window after that time,
  is refused as a replay; and a request that is refused adds nothing to the store: the
  store is left as it was, or is the store with the expired records evicted.
\<close>

theorem verify_once_then_replayed:
  assumes "parseAuthorizationHeader header = Some p"
    and "creds = Some cr"
    and "apiKey p = credsApiKey cr"
    and "isDateTimeSkewAcceptable clock1 (dateTime p)"
    and "signature p = generateSignatureCSharpCompatible pf
           [dateTime p, host, METHOD, nonce p, TAIL] (credsApiSecret cr)"
    and "ns (nonce p) = None"
  shows "verifyIncomingRequest pf header host creds clock1 clock2 ns =
           (Ok, (cleanupExpiredNonces clock2 ns)(nonce p \<mapsto> clock2)) \<and>
         (\<forall>header2 host2 p2 c1 c2.
            parseAuthorizationHeader header2 = Some p2 \<and> nonce p2 = nonce p \<and>
            apiKey p2 = credsApiKey cr \<and> isDateTimeSkewAcceptable c1 (dateTime p2) \<and>
            c2 - clock2 \<le> NONCE_TTL_MS \<longrightarrow>
            fst (verifyIncomingRequest pf header2 host2 creds c1 c2
                   ((cleanupExpiredNonces clock2 ns)(nonce p \<mapsto> clock2))) =
              Failed NonceReplayed) \<and>
         (\<forall>h hst c ca cb st e.
            fst (verifyIncomingRequest pf h hst c ca cb st) = Failed e \<longrightarrow>
            (snd (verifyIncomingRequest pf h hst c ca cb st) = st \<or>
             snd (verifyIncomingRequest pf h hst c ca cb st) = cleanupExpiredNonces cb st) \<and>
            (\<forall>n ts. snd (verifyIncomingRequest pf h hst c ca cb st) n = Some ts \<longrightarrow>
                    st n = Some ts))"
proof (intro conjI allI impI)
  show "verifyIncomingRequest pf header host creds clock1 clock2 ns =
      (Ok, (cleanupExpiredNonces clock2 ns)(nonce p \<mapsto> clock2))"
    using assms by (simp add: verifyIncomingRequest_def Let_def cleanup_absent)
next
  fix header2 host2 p2 c1 c2
  assume h: "parseAuthorizationHeader header2 = Some p2 \<and> nonce p2 = nonce p \<and>
      apiKey p2 = credsApiKey cr \<and> isDateTimeSkewAcceptable c1 (dateTime p2) \<and>
      c2 - clock2 \<le> NONCE_TTL_MS"
  let ?ns1 = "(cleanupExpiredNonces clock2 ns)(nonce p \<mapsto> clock2)"
  have "cleanupExpiredNonces c2 ?ns1 (nonce p) = Some clock2"
    using h by (intro cleanup_keeps_recent) simp_all
  then show "fst (verifyIncomingRequest pf header2 host2 creds c1 c2 ?ns1) = Failed NonceReplayed"
    using h assms(2) by (simp add: verifyIncomingRequest_def Let_def)
next
  fix h hst c ca cb st e
  assume f: "fst (verifyIncomingRequest pf h hst c ca cb st) = Failed e"
  then show "snd (verifyIncomingRequest pf h hst c ca cb st) = st \<or>
      snd (verifyIncomingRequest pf h hst c ca cb st) = cleanupExpiredNonces cb st"
    by (rule verify_failure_store)
next
  fix h hst c ca cb st e n ts
  assume f: "fst (verifyIncomingRequest pf h hst c ca cb st) = Failed e"
    and s: "snd (verifyIncomingRequest pf h hst c ca cb st) n = Some ts"
  from verify_failure_store [OF f] s show "st n = Some ts"
    by (auto dest: cleanup_subset)
qed

text \<open>
  The sample request accepted once, and refused two milliseconds later.
\<close>

theorem verify_once_then_replayed_witness:
  "verifyIncomingRequest samplePlatform (Some sampleHeader) ''localhost'' (Some sampleCreds)
     1793707200000 1793707200001 Map.empty = (Ok, [''n1'' \<mapsto> 1793707200001]) \<and>
   fst (verifyIncomingRequest samplePlatform (Some sampleHeader) ''localhost'' (Some sampleCreds)
     1793707200002 1793707200003 [''n1'' \<mapsto> 1793707200001]) = Failed NonceReplayed"
proof -
  have acc: "isDateTimeSkewAcceptable c ''20261103120000''"
    if "\<bar>c - 1793707200000\<bar> \<le> 300000" for c
    using that by (simp add: isDateTimeSkewAcceptable_def millis_sample NONCE_TTL_MS_def)
  have cl: "cleanupExpiredNonces c Map.empty = Map.empty" for c
    by (simp add: cleanupExpiredNonces_def)
  have hyps: "apiKey \<lparr>apiKey = ''key'', dateTime = ''20261103120000'', nonce = ''n1'',
        signature = ''0dab''\<rparr> = credsApiKey sampleCreds"
      "signature \<lparr>apiKey = ''key'', dateTime = ''20261103120000'', nonce = ''n1'',
        signature = ''0dab''\<rparr> =
       generateSignatureCSharpCompatible samplePlatform
         [dateTime \<lparr>apiKey = ''key'', dateTime = ''20261103120000'', nonce = ''n1'',
            signature = ''0dab''\<rparr>, ''localhost'', METHOD,
          nonce \<lparr>apiKey = ''key'', dateTime = ''20261103120000'', nonce = ''n1'',
            signature = ''0dab''\<rparr>, TAIL] (credsApiSecret sampleCreds)"
    using sample_signature by (simp_all add: sampleCreds_def)
  note inst = verify_once_then_replayed [OF parse_sampleHeader refl hyps(1) _ hyps(2),
      of 1793707200000 Map.empty 1793707200001]
  have first: "verifyIncomingRequest samplePlatform (Some sampleHeader) ''localhost''
      (Some sampleCreds) 1793707200000 1793707200001 Map.empty = (Ok, [''n1'' \<mapsto> 1793707200001])"
    using inst [THEN conjunct1] acc [of 1793707200000] by (simp add: cl)
  have "fst (verifyIncomingRequest samplePlatform (Some sampleHeader) ''localhost''
      (Some sampleCreds) 1793707200002 1793707200003 [''n1'' \<mapsto> 1793707200001]) =
      Failed NonceReplayed"
    using inst [THEN conjunct2, THEN conjunct1, rule_format, of "Some sampleHeader" _
        1793707200002 1793707200003 "''localhost''"]
      parse_sampleHeader acc [of 1793707200000] acc [of 1793707200002]
    by (simp add: NONCE_TTL_MS_def cl sampleCreds_def)
  with first show ?thesis by simp
qed

lemma parse_wrongSignatureHeader:
  "parseAuthorizationHeader (Some wrongSignatureHeader) =
     Some \<lparr>apiKey = ''key'', dateTime = ''20261103120000'', nonce = ''n1'', signature = ''0000''\<rparr>"
  by (simp add: wrongSignatureHeader_def parseAuthorizationHeader_def startsWith_def trim_def
      isWhiteSpace_def storePair_def Let_def)

text \<open>
  Claim C1 as stated fails in its last part: a request refused for its signature still
  evicts an expired record, so the store is not what it was.
\<close>

theorem failed_verify_changes_store_counterexample:
  "fst (verifyIncomingRequest samplePlatform (Some wrongSignatureHeader) ''localhost''
          (Some sampleCreds) 1793707200000 1793707200000 [''old'' \<mapsto> 0]) =
     Failed SignatureMismatch \<and>
   snd (verifyIncomingRequest samplePlatform (Some wrongSignatureHeader) ''localhost''
          (Some sampleCreds) 1793707200000 1793707200000 [''old'' \<mapsto> 0]) \<noteq> [''old'' \<mapsto> 0]"
proof -
  have acc: "isDateTimeSkewAcceptable 1793707200000 ''20261103120000''"
    by (simp add: isDateTimeSkewAcceptable_def millis_sample NONCE_TTL_MS_def)
  let ?r = "verifyIncomingRequest samplePlatform (Some wrongSignatureHeader) ''localhost''
      (Some sampleCreds) 1793707200000 1793707200000 [''old'' \<mapsto> 0]"
  have r: "?r = (Failed SignatureMismatch, cleanupExpiredNonces 1793707200000 [''old'' \<mapsto> 0])"
    using parse_wrongSignatureHeader acc sample_signature
    by (simp add: verifyIncomingRequest_def sampleCreds_def Let_def cleanupExpiredNonces_def)
  have "snd ?r ''old'' = None"
    by (simp add: r cleanupExpiredNonces_def NONCE_TTL_MS_def)
  then have "snd ?r \<noteq> [''old'' \<mapsto> 0]"
    by (auto dest: fun_cong [where x = "''old''"])
  with r show ?thesis by simp
qed

section \<open>Properties of upgrade tokens and connections\<close>

text \<open>
  Claim C2, as amended. The token check succeeds exactly when a record exists for the
  session key, the presented token equals the stored one and the clock has not passed the
  expiry time (the expiry instant itself is still accepted); on success the record is
  deleted, so presenting the same token again fails at any time; on failure the store is
  unchanged.
\<close>

theorem redeem_single_use:
  "fst (redeemWsToken key tok now wsTokens) =
     (\<exists>k t r. key = Some k \<and> k \<noteq> [] \<and> tok = Some t \<and> t \<noteq> [] \<and>
        wsTokens k = Some r \<and> token r = t \<and> now \<le> expiresAt r) \<and>
   (fst (redeemWsToken key tok now wsTokens) \<longrightarrow>
      (\<exists>k. key = Some k \<and>
         snd (redeemWsToken key tok now wsTokens) = wsTokens(k := None)) \<and>
      (\<forall>later. \<not> fst (redeemWsToken key tok later
                        (snd (redeemWsToken key tok now wsTokens))))) \<and>
   (\<not> fst (redeemWsToken key tok now wsTokens) \<longrightarrow>
      snd (redeemWsToken key tok now wsTokens) = wsTokens)"
  by (auto simp: redeemWsToken_def split: option.splits if_splits)

text \<open>
  A token issued at time 1000 is redeemed at time 2000, and not a second time.
\<close>

theorem redeem_single_use_witness:
  "fst (redeemWsToken (Some ''session'') (Some ''tok'') 2000
          (snd (createSession ''session'' ''tok'' 1000 (Map.empty, Map.empty)))) \<and>
   \<not> fst (redeemWsToken (Some ''session'') (Some ''tok'') 2000
            (snd (redeemWsToken (Some ''session'') (Some ''tok'') 2000
                    (snd (createSession ''session'' ''tok'' 1000 (Map.empty, Map.empty))))))"
proof -
  let ?issued = "snd (createSession ''session'' ''tok'' 1000 (Map.empty, Map.empty))"
  note inst = redeem_single_use [of "Some ''session''" "Some ''tok''" 2000 ?issued]
  have first: "fst (redeemWsToken (Some ''session'') (Some ''tok'') 2000 ?issued)"
    using inst [THEN conjunct1]
    by (simp add: createSession_def WS_TOKEN_TTL_MS_def)
  with inst have "\<forall>later. \<not> fst (redeemWsToken (Some ''session'') (Some ''tok'') later
      (snd (redeemWsToken (Some ''session'') (Some ''tok'') 2000 ?issued)))"
    by blast
  with first show ?thesis by blast
qed

text \<open>
  Claim C2 as stated fails at the boundary: a token issued at time 1000 expires at 301000
  and is still redeemed at 301000, which is not strictly before the expiry time.
\<close>

theorem redeem_at_expiry_counterexample:
  "fst (redeemWsToken (Some ''session'') (Some ''tok'') 301000
          (snd (createSession ''session'' ''tok'' 1000 (Map.empty, Map.empty)))) \<and>
   (\<exists>r. snd (createSession ''session'' ''tok'' 1000 (Map.empty, Map.empty)) ''session'' = Some r \<and>
        \<not> 301000 < expiresAt r)"
  by (simp add: redeemWsToken_def createSession_def WS_TOKEN_TTL_MS_def)

text \<open>
  Claim C9. The close handler of any transport bound to a session key deletes the entry of
  that key and no other; in particular, after an older and then a newer transport were
  bound to the key, the entry holds the newer one, and the close event of the older one
  deletes it.
\<close>

theorem close_removes_current_binding:
  "onClose inherited K sock connections K = None \<and>
   (\<forall>k. k \<noteq> K \<longrightarrow> onClose inherited K sock connections k = connections k) \<and>
   (K \<noteq> [] \<and> \<not> inherited K \<longrightarrow>
      (\<exists>e. snd (onConnection inherited (Some K) newer
                  (snd (onConnection inherited (Some K) older connections))) K = Some e \<and>
            ws e = Some newer) \<and>
      onClose inherited K older
        (snd (onConnection inherited (Some K) newer
                (snd (onConnection inherited (Some K) older connections)))) K = None)"
  by (auto simp: onClose_def onConnection_def Let_def split: option.splits)

text \<open>
  Transports 1 and 2 bound to the same key in turn; transport 1 closes.
\<close>

theorem close_removes_current_binding_witness:
  "(\<exists>e. snd (onConnection objectPrototypeKey (Some ''session'') 2
              (snd (onConnection objectPrototypeKey (Some ''session'') 1 Map.empty))) ''session''
          = Some e \<and> ws e = Some 2) \<and>
   onClose objectPrototypeKey ''session'' 1
     (snd (onConnection objectPrototypeKey (Some ''session'') 2
             (snd (onConnection objectPrototypeKey (Some ''session'') 1 Map.empty)))) ''session''
     = None"
  using close_removes_current_binding [of objectPrototypeKey "''session''" 1 Map.empty 2 1]
  by (simp add: objectPrototypeKey_def)

section \<open>Properties of the serial task queue\<close>

lemma serial_new: "serial newMessageHandler"
  by (simp add: serial_def newMessageHandler_def)

lemma serial_addToQueue: "serial h \<Longrightarrow> serial (addToQueue t h)"
  by (auto simp: serial_def addToQueue_def processQueue_def drain_def split: list.splits)

lemma serial_taskSettled: "serial h \<Longrightarrow> serial (taskSettled t oc h)"
  by (auto simp: serial_def taskSettled_def drain_def split: list.splits)

lemma tasks_addToQueue:
  "started (addToQueue t h) @ processingQueue (addToQueue t h) =
     started h @ processingQueue h @ [t]"
  by (auto simp: addToQueue_def processQueue_def drain_def split: list.splits)

lemma tasks_taskSettled:
  "started (taskSettled t oc h) @ processingQueue (taskSettled t oc h) =
     started h @ processingQueue h"
  by (auto simp: taskSettled_def drain_def split: list.splits)

lemma serial_queueStep: "serial h \<Longrightarrow> serial (queueStep op h)"
  by (cases op) (simp_all add: serial_addToQueue serial_taskSettled)

lemma serial_fold: "serial h \<Longrightarrow> serial (fold queueStep ops h)"
  by (induction ops arbitrary: h) (simp_all add: serial_queueStep)

lemma tasks_fold:
  "started (fold queueStep ops h) @ processingQueue (fold queueStep ops h) =
     started h @ processingQueue h @ enqueuedBy ops"
proof (induction ops arbitrary: h)
  case Nil
  then show ?case by simp
next
  case (Cons op ops)
  then show ?case
    by (cases op) (simp_all add: tasks_addToQueue tasks_taskSettled)
qed

lemma rejected_task_next_starts:
  assumes "serial h" and "executing h = [t]"
  shows "caught (taskSettled t Rejected h) = caught h @ [t] \<and>
         (case processingQueue h of
            [] \<Rightarrow> executing (taskSettled t Rejected h) = []
          | t' # rest \<Rightarrow> executing (taskSettled t Rejected h) = [t'] \<and>
                         started (taskSettled t Rejected h) = started h @ [t'])"
  using assms by (auto simp: taskSettled_def drain_def split: list.splits)

lemma started_addToQueue:
  "length (started (addToQueue t h)) + length (executing h) =
     length (started h) + length (executing (addToQueue t h))"
  by (auto simp: addToQueue_def processQueue_def drain_def split: list.splits)

lemma started_taskSettled:
  "length (started (taskSettled t oc h)) + length (executing h) \<le>
     length (started h) + 1 + length (executing (taskSettled t oc h))"
  by (auto simp: taskSettled_def drain_def length_remove1 split: list.splits)

lemma started_fold:
  "length (started (fold queueStep ops h)) + length (executing h) \<le>
     length (started h) + settlements ops + length (executing (fold queueStep ops h))"
proof (induction ops arbitrary: h)
  case Nil
  then show ?case by simp
next
  case (Cons op ops)
  show ?case
  proof (cases op)
    case (Enqueue t)
    from Cons.IH [of "addToQueue t h"] started_addToQueue [of t h] show ?thesis
      by (simp add: Enqueue)
  next
    case (Settled t oc)
    from Cons.IH [of "taskSettled t oc h"] started_taskSettled [of t oc h] show ?thesis
      by (simp add: Settled)
  qed
qed

lemma queueRun_snoc: "queueRun (ops @ [op]) = queueStep op (queueRun ops)"
  by (simp add: queueRun_def)

lemma enqueue_while_pending:
  assumes "serial h" and "executing h \<noteq> []"
  shows "started (addToQueue t h) = started h \<and> executing (addToQueue t h) = executing h \<and>
         processingQueue (addToQueue t h) = processingQueue h @ [t]"
  using assms by (simp add: serial_def addToQueue_def processQueue_def)

lemma enqueue_while_idle:
  assumes "serial h" and "executing h = []"
  shows "executing (addToQueue t h) = [t] \<and> started (addToQueue t h) = started h @ [t] \<and>
         processingQueue (addToQueue t h) = []"
  using assms by (simp add: serial_def addToQueue_def processQueue_def drain_def)

lemma settlement_starts_next:
  assumes "executing h = [t]"
  shows "executing (taskSettled t oc h) = take 1 (processingQueue h) \<and>
         started (taskSettled t oc h) = started h @ take 1 (processingQueue h) \<and>
         processingQueue (taskSettled t oc h) = drop 1 (processingQueue h)"
  using assms by (simp add: taskSettled_def drain_def split: list.splits)

text \<open>
  Claim C5. After any sequence of additions to the queue and of settlements of called
  tasks, the tasks called so far followed by the tasks still queued are the added tasks in
  the order of their addition; at most one called task is pending, and it is the one
  called last; when none is pending every added task has been called; and when the
  pending task is rejected, the rejection is caught and the next added task, if there is
  one, is called. No more tasks have been called than settlements have happened, plus
  one. A task added while another is pending is not called: it only joins the queue. A
  task added while none is pending is called at once and becomes the pending one. The
  settlement of the pending task, resolved or rejected, calls exactly the first queued
  task and no other, and nothing but the settlement of the pending task itself does.
\<close>

theorem queue_serial_in_order:
  "started (queueRun ops) @ processingQueue (queueRun ops) = enqueuedBy ops \<and>
   length (executing (queueRun ops)) \<le> 1 \<and>
   (executing (queueRun ops) = [] \<or> executing (queueRun ops) = [last (started (queueRun ops))]) \<and>
   (executing (queueRun ops) = [] \<longrightarrow> started (queueRun ops) = enqueuedBy ops) \<and>
   (\<forall>t. executing (queueRun ops) = [t] \<longrightarrow>
      t \<in> set (caught (queueRun (ops @ [Settled t Rejected]))) \<and>
      started (queueRun (ops @ [Settled t Rejected])) =
        take (Suc (length (started (queueRun ops)))) (enqueuedBy ops)) \<and>
   length (started (queueRun ops)) \<le> Suc (settlements ops) \<and>
   (\<forall>t. executing (queueRun ops) \<noteq> [] \<longrightarrow>
      started (queueRun (ops @ [Enqueue t])) = started (queueRun ops) \<and>
      executing (queueRun (ops @ [Enqueue t])) = executing (queueRun ops) \<and>
      processingQueue (queueRun (ops @ [Enqueue t])) = processingQueue (queueRun ops) @ [t]) \<and>
   (\<forall>t. executing (queueRun ops) = [] \<longrightarrow>
      executing (queueRun (ops @ [Enqueue t])) = [t] \<and>
      started (queueRun (ops @ [Enqueue t])) = started (queueRun ops) @ [t] \<and>
      processingQueue (queueRun (ops @ [Enqueue t])) = []) \<and>
   (\<forall>t oc. executing (queueRun ops) = [t] \<longrightarrow>
      executing (queueRun (ops @ [Settled t oc])) = take 1 (processingQueue (queueRun ops)) \<and>
      started (queueRun (ops @ [Settled t oc])) =
        started (queueRun ops) @ take 1 (processingQueue (queueRun ops)) \<and>
      processingQueue (queueRun (ops @ [Settled t oc])) =
        drop 1 (processingQueue (queueRun ops))) \<and>
   (\<forall>t oc. t \<notin> set (executing (queueRun ops)) \<longrightarrow>
      queueRun (ops @ [Settled t oc]) = queueRun ops)"
proof -
  let ?h = "queueRun ops"
  have ser: "serial ?h"
    unfolding queueRun_def by (rule serial_fold) (rule serial_new)
  have tasks: "started ?h @ processingQueue ?h = enqueuedBy ops"
    unfolding queueRun_def using tasks_fold [of ops newMessageHandler]
    by (simp add: newMessageHandler_def)
  have one: "length (executing ?h) \<le> 1"
    using ser by (simp add: serial_def)
  have lst: "executing ?h = [] \<or> executing ?h = [last (started ?h)]"
    using ser by (auto simp: serial_def)
  have idle: "executing ?h = [] \<longrightarrow> started ?h = enqueuedBy ops"
    using ser tasks by (auto simp: serial_def)
  have rej: "\<forall>t. executing ?h = [t] \<longrightarrow>
      t \<in> set (caught (queueRun (ops @ [Settled t Rejected]))) \<and>
      started (queueRun (ops @ [Settled t Rejected])) =
        take (Suc (length (started ?h))) (enqueuedBy ops)"
  proof (intro allI impI)
    fix t
    assume ex: "executing ?h = [t]"
    note nxt = rejected_task_next_starts [OF ser ex]
    show "t \<in> set (caught (queueRun (ops @ [Settled t Rejected]))) \<and>
      started (queueRun (ops @ [Settled t Rejected])) =
        take (Suc (length (started ?h))) (enqueuedBy ops)"
    proof (cases "processingQueue ?h")
      case Nil
      with nxt tasks ex show ?thesis
        by (simp add: queueRun_snoc taskSettled_def drain_def)
    next
      case (Cons t' rest)
      with nxt tasks [symmetric] show ?thesis
        by (simp add: queueRun_snoc)
    qed
  qed
  have bound: "length (started ?h) \<le> Suc (settlements ops)"
    using started_fold [of ops newMessageHandler] one
    by (simp add: queueRun_def newMessageHandler_def)
  have pending: "\<forall>t. executing ?h \<noteq> [] \<longrightarrow>
      started (queueRun (ops @ [Enqueue t])) = started ?h \<and>
      executing (queueRun (ops @ [Enqueue t])) = executing ?h \<and>
      processingQueue (queueRun (ops @ [Enqueue t])) = processingQueue ?h @ [t]"
    using enqueue_while_pending [OF ser] by (simp add: queueRun_snoc)
  have fresh: "\<forall>t. executing ?h = [] \<longrightarrow>
      executing (queueRun (ops @ [Enqueue t])) = [t] \<and>
      started (queueRun (ops @ [Enqueue t])) = started ?h @ [t] \<and>
      processingQueue (queueRun (ops @ [Enqueue t])) = []"
    using enqueue_while_idle [OF ser] by (simp add: queueRun_snoc)
  have nxt: "\<forall>t oc. executing ?h = [t] \<longrightarrow>
      executing (queueRun (ops @ [Settled t oc])) = take 1 (processingQueue ?h) \<and>
      started (queueRun (ops @ [Settled t oc])) = started ?h @ take 1 (processingQueue ?h) \<and>
      processingQueue (queueRun (ops @ [Settled t oc])) = drop 1 (processingQueue ?h)"
    using settlement_starts_next by (simp add: queueRun_snoc)
  have other: "\<forall>t oc. t \<notin> set (executing ?h) \<longrightarrow> queueRun (ops @ [Settled t oc]) = ?h"
    by (simp add: queueRun_snoc taskSettled_def)
  show ?thesis
    by (intro conjI) (fact tasks one lst idle rej bound pending fresh nxt other)+
qed

text \<open>
  Three tasks, the first of which is rejected; and three tasks added before any settles:
  only the first is called, a fourth only joins the queue, and the settlement of the first
  calls the second alone.
\<close>

theorem queue_serial_in_order_witness:
  "started (queueRun sampleOps) @ processingQueue (queueRun sampleOps) =
     [ExecuteGraphText ''session'' ''one'' ''interaction-1'',
      ExecuteGraphText ''session'' ''two'' ''interaction-2'',
      ExecuteGraphText ''session'' ''three'' ''interaction-3''] \<and>
   length (executing (queueRun sampleOps)) \<le> 1 \<and>
   started (queueRun (sampleOps @
      [Settled (ExecuteGraphText ''session'' ''three'' ''interaction-3'') Rejected])) =
     [ExecuteGraphText ''session'' ''one'' ''interaction-1'',
      ExecuteGraphText ''session'' ''two'' ''interaction-2'',
      ExecuteGraphText ''session'' ''three'' ''interaction-3''] \<and>
   started (queueRun waitingOps) = [ExecuteGraphText ''session'' ''one'' ''interaction-1''] \<and>
   started (queueRun (waitingOps @
      [Enqueue (ExecuteGraphText ''session'' ''four'' ''interaction-4'')])) =
     [ExecuteGraphText ''session'' ''one'' ''interaction-1''] \<and>
   started (queueRun (waitingOps @
      [Settled (ExecuteGraphText ''session'' ''one'' ''interaction-1'') Resolved])) =
     [ExecuteGraphText ''session'' ''one'' ''interaction-1'',
      ExecuteGraphText ''session'' ''two'' ''interaction-2''] \<and>
   executing (queueRun (waitingOps @
      [Settled (ExecuteGraphText ''session'' ''one'' ''interaction-1'') Resolved])) =
     [ExecuteGraphText ''session'' ''two'' ''interaction-2'']"
proof -
  have ex: "executing (queueRun sampleOps) =
      [ExecuteGraphText ''session'' ''three'' ''interaction-3'']"
    and st: "length (started (queueRun sampleOps)) = 3"
    by (simp_all add: queueRun_def sampleOps_def addToQueue_def processQueue_def drain_def
        taskSettled_def newMessageHandler_def)
  have enq: "enqueuedBy sampleOps =
     [ExecuteGraphText ''session'' ''one'' ''interaction-1'',
      ExecuteGraphText ''session'' ''two'' ''interaction-2'',
      ExecuteGraphText ''session'' ''three'' ''interaction-3'']"
    by (simp add: sampleOps_def)
  note inst = queue_serial_in_order [of sampleOps]
  from inst have order: "started (queueRun sampleOps) @ processingQueue (queueRun sampleOps) =
      enqueuedBy sampleOps"
    and one: "length (executing (queueRun sampleOps)) \<le> 1"
    by blast+
  from inst ex have "started (queueRun (sampleOps @
      [Settled (ExecuteGraphText ''session'' ''three'' ''interaction-3'') Rejected])) =
      take (Suc (length (started (queueRun sampleOps)))) (enqueuedBy sampleOps)"
    by blast
  then have after: "started (queueRun (sampleOps @
      [Settled (ExecuteGraphText ''session'' ''three'' ''interaction-3'') Rejected])) =
      enqueuedBy sampleOps"
    by (simp add: st enq)
  have wex: "executing (queueRun waitingOps) =
      [ExecuteGraphText ''session'' ''one'' ''interaction-1'']"
    and wst: "started (queueRun waitingOps) =
      [ExecuteGraphText ''session'' ''one'' ''interaction-1'']"
    and wq: "processingQueue (queueRun waitingOps) =
      [ExecuteGraphText ''session'' ''two'' ''interaction-2'',
       ExecuteGraphText ''session'' ''three'' ''interaction-3'']"
    by (simp_all add: queueRun_def waitingOps_def addToQueue_def processQueue_def drain_def
        newMessageHandler_def)
  note winst = queue_serial_in_order [of waitingOps]
  from winst have pend: "\<forall>t. executing (queueRun waitingOps) \<noteq> [] \<longrightarrow>
      started (queueRun (waitingOps @ [Enqueue t])) = started (queueRun waitingOps) \<and>
      executing (queueRun (waitingOps @ [Enqueue t])) = executing (queueRun waitingOps) \<and>
      processingQueue (queueRun (waitingOps @ [Enqueue t])) =
        processingQueue (queueRun waitingOps) @ [t]"
    and nxt: "\<forall>t oc. executing (queueRun waitingOps) = [t] \<longrightarrow>
      executing (queueRun (waitingOps @ [Settled t oc])) =
        take 1 (processingQueue (queueRun waitingOps)) \<and>
      started (queueRun (waitingOps @ [Settled t oc])) =
        started (queueRun waitingOps) @ take 1 (processingQueue (queueRun waitingOps)) \<and>
      processingQueue (queueRun (waitingOps @ [Settled t oc])) =
        drop 1 (processingQueue (queueRun waitingOps))"
    by blast+
  from pend wex wst have fourth: "started (queueRun (waitingOps @
      [Enqueue (ExecuteGraphText ''session'' ''four'' ''interaction-4'')])) =
      [ExecuteGraphText ''session'' ''one'' ''interaction-1'']"
    by simp
  from nxt wex have "executing (queueRun (waitingOps @
      [Settled (ExecuteGraphText ''session'' ''one'' ''interaction-1'') Resolved])) =
        take 1 (processingQueue (queueRun waitingOps)) \<and>
      started (queueRun (waitingOps @
      [Settled (ExecuteGraphText ''session'' ''one'' ''interaction-1'') Resolved])) =
        started (queueRun waitingOps) @ take 1 (processingQueue (queueRun waitingOps))"
    by blast
  then have second: "executing (queueRun (waitingOps @
      [Settled (ExecuteGraphText ''session'' ''one'' ''interaction-1'') Resolved])) =
        [ExecuteGraphText ''session'' ''two'' ''interaction-2'']"
      "started (queueRun (waitingOps @
      [Settled (ExecuteGraphText ''session'' ''one'' ''interaction-1'') Resolved])) =
        [ExecuteGraphText ''session'' ''one'' ''interaction-1'',
         ExecuteGraphText ''session'' ''two'' ''interaction-2'']"
    by (simp_all add: wst wq)
  from order one after wst fourth second show ?thesis
    by (simp only: enq)
qed

section \<open>Properties of the audio segmenter\<close>

lemma durationMs_add: "durationMs (a + b) = durationMs a + durationMs b"
  by (simp add: durationMs_def add_divide_distrib distrib_right)

lemma durationMs_mono: "a \<le> b \<Longrightarrow> durationMs a \<le> durationMs b"
  by (simp add: durationMs_def INPUT_SAMPLE_RATE_def)

lemma durationMs_eight: "durationMs n = of_nat n / 8"
  by (simp add: durationMs_def INPUT_SAMPLE_RATE_def)

lemma addToQueue_fields [simp]:
  "pauseDuration (addToQueue t h) = pauseDuration h"
  "isCapturingSpeech (addToQueue t h) = isCapturingSpeech h"
  "speechBuffer (addToQueue t h) = speechBuffer h"
  "classified (addToQueue t h) = classified h"
  "sent (addToQueue t h) = sent h"
  "caught (addToQueue t h) = caught h"
  by (simp_all add: addToQueue_def processQueue_def drain_def split: list.splits)

lemma normalizeAudio_length [simp]: "length (normalizeAudio eng xs) = length xs"
  by (simp add: normalizeAudio_def Let_def)

subsection \<open>The maximum of finite samples\<close>

lemma maxVal_ge_start: "a \<le> foldl (\<lambda>m x. max m \<bar>x\<bar>) a xs" for a :: rat
proof (induction xs arbitrary: a)
  case Nil
  then show ?case by simp
next
  case (Cons x xs)
  have "a \<le> max a \<bar>x\<bar>" by simp
  also have "\<dots> \<le> foldl (\<lambda>m x. max m \<bar>x\<bar>) (max a \<bar>x\<bar>) xs" by (rule Cons.IH)
  finally show ?case by simp
qed

lemma maxVal_upper: "y \<in> set xs \<Longrightarrow> \<bar>y\<bar> \<le> foldl (\<lambda>m x. max m \<bar>x\<bar>) a xs" for a :: rat
proof (induction xs arbitrary: a)
  case Nil
  then show ?case by simp
next
  case (Cons x xs)
  show ?case
  proof (cases "y = x")
    case True
    have "\<bar>x\<bar> \<le> max a \<bar>x\<bar>" by simp
    also have "\<dots> \<le> foldl (\<lambda>m x. max m \<bar>x\<bar>) (max a \<bar>x\<bar>) xs" by (rule maxVal_ge_start)
    finally show ?thesis using True by simp
  next
    case False
    with Cons.prems have "y \<in> set xs" by simp
    then show ?thesis using Cons.IH by simp
  qed
qed

lemma maxVal_attained:
  "foldl (\<lambda>m x. max m \<bar>x\<bar>) a xs = a \<or> (\<exists>y\<in>set xs. foldl (\<lambda>m x. max m \<bar>x\<bar>) a xs = \<bar>y\<bar>)"
  for a :: rat
proof (induction xs arbitrary: a)
  case Nil
  then show ?case by simp
next
  case (Cons x xs)
  from Cons.IH [of "max a \<bar>x\<bar>"] show ?case
    by (auto simp: max_def split: if_splits)
qed

lemma maxVal_bounded:
  assumes "\<forall>q\<in>set qs. \<bar>q\<bar> \<le> 1" and "\<exists>q\<in>set qs. \<bar>q\<bar> = 1"
  shows "foldl (\<lambda>m x. max m \<bar>x\<bar>) 0 qs = (1::rat)"
proof -
  let ?m = "foldl (\<lambda>m x. max m \<bar>x\<bar>) 0 qs"
  from assms(2) obtain q where "q \<in> set qs" "\<bar>q\<bar> = 1" by blast
  then have low: "1 \<le> ?m" using maxVal_upper [of q qs 0] by simp
  from maxVal_attained [of 0 qs] assms(1) have "?m \<le> 1" by auto
  with low show ?thesis by simp
qed

lemma finite_fold:
  "list_all isFinite xs \<Longrightarrow>
     foldl (\<lambda>maxVal x. numMax maxVal (numAbs x)) (Finite a) xs =
       Finite (foldl (\<lambda>m x. max m \<bar>x\<bar>) a (map ratOf xs))"
proof (induction xs arbitrary: a)
  case Nil
  then show ?case by simp
next
  case (Cons x xs)
  then obtain r where "x = Finite r" by (cases x) simp_all
  with Cons show ?case by simp
qed

lemma maxAbs_finite:
  "list_all isFinite xs \<Longrightarrow> maxAbs xs = Finite (foldl (\<lambda>m x. max m \<bar>x\<bar>) 0 (map ratOf xs))"
  by (simp add: maxAbs_def finite_fold)

lemma finite_ratOf: "isFinite x \<Longrightarrow> x = Finite (ratOf x)"
  by (cases x) simp_all

lemma normalizeAudio_peak:
  assumes "boundedQuotient eng" and "list_all isFinite xs" and "\<exists>x\<in>set xs. x \<noteq> Finite 0"
  shows "list_all isFinite (normalizeAudio eng xs) \<and> maxAbs (normalizeAudio eng xs) = Finite 1"
proof -
  let ?m = "foldl (\<lambda>m x. max m \<bar>x\<bar>) 0 (map ratOf xs)"
  have fin: "isFinite x" if "x \<in> set xs" for x
    using assms(2) that by (simp add: list_all_iff)
  from assms(3) obtain x where x: "x \<in> set xs" "x \<noteq> Finite 0" by blast
  with fin [of x] have "ratOf x \<noteq> 0" by (cases x) simp_all
  then have "0 < \<bar>ratOf x\<bar>" by simp
  also have "\<bar>ratOf x\<bar> \<le> ?m" using x(1) by (intro maxVal_upper) simp
  finally have pos: "0 < ?m" .
  have mx: "maxAbs xs = Finite ?m"
    using assms(2) by (rule maxAbs_finite)
  have quot: "numDiv eng y (Finite ?m) = fdiv eng (ratOf y) ?m" if "y \<in> set xs" for y
    using fin [OF that] pos by (cases y) simp_all
  have norm: "normalizeAudio eng xs = map (\<lambda>y. fdiv eng (ratOf y) ?m) xs"
    using pos quot by (simp add: normalizeAudio_def mx isZero_def)
  have each: "\<exists>q. fdiv eng (ratOf y) ?m = Finite q \<and> \<bar>q\<bar> \<le> 1 \<and> (\<bar>ratOf y\<bar> = ?m \<longrightarrow> \<bar>q\<bar> = 1)"
    if "y \<in> set xs" for y
  proof -
    have "\<bar>ratOf y\<bar> \<le> ?m" using that by (intro maxVal_upper) simp
    with assms(1) pos show ?thesis
      unfolding boundedQuotient_def by blast
  qed
  have allfin: "list_all isFinite (normalizeAudio eng xs)"
    unfolding norm list_all_iff
  proof
    fix v assume "v \<in> set (map (\<lambda>y. fdiv eng (ratOf y) ?m) xs)"
    then obtain y where "y \<in> set xs" "v = fdiv eng (ratOf y) ?m" by auto
    with each [of y] show "isFinite v" by auto
  qed
  have le: "\<forall>q\<in>set (map ratOf (normalizeAudio eng xs)). \<bar>q\<bar> \<le> 1"
    unfolding norm
  proof
    fix q assume "q \<in> set (map ratOf (map (\<lambda>y. fdiv eng (ratOf y) ?m) xs))"
    then obtain y where "y \<in> set xs" "q = ratOf (fdiv eng (ratOf y) ?m)" by auto
    with each [of y] show "\<bar>q\<bar> \<le> 1" by auto
  qed
  from maxVal_attained [of 0 "map ratOf xs"] pos obtain r where
    r: "r \<in> set (map ratOf xs)" "?m = \<bar>r\<bar>"
    by auto
  then obtain y where y: "y \<in> set xs" "r = ratOf y" by auto
  from each [OF y(1)] r(2) y(2) obtain q where
    q: "fdiv eng (ratOf y) ?m = Finite q" "\<bar>q\<bar> = 1"
    by auto
  have "q \<in> set (map ratOf (normalizeAudio eng xs))"
  proof -
    have "fdiv eng (ratOf y) ?m \<in> set (normalizeAudio eng xs)"
      using y(1) unfolding norm by (simp only: set_map) (rule imageI)
    then have "ratOf (fdiv eng (ratOf y) ?m) \<in> ratOf ` set (normalizeAudio eng xs)"
      by (rule imageI)
    then show ?thesis by (simp add: q(1))
  qed
  with q(2) have ex: "\<exists>q\<in>set (map ratOf (normalizeAudio eng xs)). \<bar>q\<bar> = 1"
    by blast
  have "maxAbs (normalizeAudio eng xs) = Finite 1"
    using maxAbs_finite [OF allfin] maxVal_bounded [OF le ex] by simp
  with allfin show ?thesis by simp
qed

lemma normalizeAudio_silent:
  assumes "\<forall>x\<in>set xs. x = Finite 0"
  shows "normalizeAudio eng xs = xs"
proof -
  have fin: "list_all isFinite xs"
    using assms by (auto simp: list_all_iff)
  have "\<forall>r\<in>set (map ratOf xs). r = 0"
    using assms by auto
  with maxVal_attained [of 0 "map ratOf xs"] have "foldl (\<lambda>m x. max m \<bar>x\<bar>) 0 (map ratOf xs) = 0"
    by auto
  then show ?thesis
    by (simp add: normalizeAudio_def maxAbs_finite [OF fin] isZero_def)
qed

subsection \<open>The maximum when a sample is infinite\<close>

lemma nan_fold: "foldl (\<lambda>maxVal x. numMax maxVal (numAbs x)) NotANumber xs = NotANumber"
  by (induction xs) simp_all

lemma nan_member_fold:
  "NotANumber \<in> set xs \<Longrightarrow> foldl (\<lambda>maxVal x. numMax maxVal (numAbs x)) a xs = NotANumber"
proof (induction xs arbitrary: a)
  case Nil
  then show ?case by simp
next
  case (Cons x xs)
  show ?case
  proof (cases "x = NotANumber")
    case True
    have "numMax a (numAbs NotANumber) = NotANumber" by (cases a) simp_all
    then show ?thesis using True by (simp add: nan_fold)
  next
    case False
    with Cons show ?thesis by simp
  qed
qed

lemma infinity_fold:
  "NotANumber \<notin> set xs \<Longrightarrow>
     foldl (\<lambda>maxVal x. numMax maxVal (numAbs x)) PosInfinity xs = PosInfinity"
proof (induction xs)
  case Nil
  then show ?case by simp
next
  case (Cons x xs)
  then have "numMax PosInfinity (numAbs x) = PosInfinity" by (cases x) simp_all
  with Cons show ?case by simp
qed

lemma infinity_member_fold:
  assumes "PosInfinity \<in> set xs" and "NotANumber \<notin> set xs"
  shows "foldl (\<lambda>maxVal x. numMax maxVal (numAbs x)) (Finite a) xs = PosInfinity"
  using assms
proof (induction xs arbitrary: a)
  case Nil
  then show ?case by simp
next
  case (Cons x xs)
  show ?case
  proof (cases x)
    case (Finite r)
    with Cons show ?thesis by simp
  next
    case PosInfinity
    with Cons.prems show ?thesis by (simp add: infinity_fold)
  next
    case NegInfinity
    with Cons.prems show ?thesis by (simp add: infinity_fold)
  next
    case NotANumber
    with Cons.prems show ?thesis by simp
  qed
qed

lemma normalizeAudio_overflow:
  assumes "PosInfinity \<in> set xs" and "NotANumber \<notin> set xs"
  shows "maxAbs (normalizeAudio eng xs) = NotANumber"
proof -
  have mx: "maxAbs xs = PosInfinity"
    using assms by (simp add: maxAbs_def infinity_member_fold)
  then have norm: "normalizeAudio eng xs = map (\<lambda>x. numDiv eng x PosInfinity) xs"
    by (simp add: normalizeAudio_def isZero_def)
  have "numDiv eng PosInfinity PosInfinity \<in> set (normalizeAudio eng xs)"
    using assms(1) unfolding norm by (simp only: set_map) (rule imageI)
  then have "NotANumber \<in> set (normalizeAudio eng xs)" by simp
  then show ?thesis
    by (simp add: maxAbs_def nan_member_fold)
qed

lemma normalizeAudio_infinity:
  assumes "PosInfinity \<in> set xs" and "NotANumber \<notin> set xs"
  shows "normalizeAudio eng xs = map (\<lambda>x. numDiv eng x PosInfinity) xs"
proof -
  have "maxAbs xs = PosInfinity"
    using assms by (simp add: maxAbs_def infinity_member_fold)
  then show ?thesis
    by (simp add: normalizeAudio_def isZero_def)
qed

subsection \<open>Single steps of the segmenter\<close>

lemma voice_step:
  assumes "voicePresent eng ev"
  shows "isCapturingSpeech (step eng ev h) \<and> pauseDuration (step eng ev h) = 0 \<and>
         speechBuffer (step eng ev h) = speechBuffer h @ samplesOf [ev] \<and>
         started (step eng ev h) = started h \<and> processingQueue (step eng ev h) = processingQueue h \<and>
         executing (step eng ev h) = executing h"
  using assms by (cases ev) (simp_all add: handleMessage_def Let_def pushThrows_def)

lemma idle_novoice_step:
  assumes "noVoice eng ev" and "\<not> isCapturingSpeech h"
  shows "\<not> isCapturingSpeech (step eng ev h) \<and> speechBuffer (step eng ev h) = speechBuffer h \<and>
         started (step eng ev h) = started h \<and> processingQueue (step eng ev h) = processingQueue h \<and>
         executing (step eng ev h) = executing h"
  using assms by (cases ev) (simp_all add: handleMessage_def Let_def pushThrows_def)

lemma pause_step_continue:
  assumes "noVoice eng ev" and "isCapturingSpeech h"
    and "pauseDuration h + durationMs (length (samplesOf [ev])) \<le> PAUSE_DURATION_THRESHOLD_MS"
  shows "isCapturingSpeech (step eng ev h) \<and>
         pauseDuration (step eng ev h) = pauseDuration h + durationMs (length (samplesOf [ev])) \<and>
         speechBuffer (step eng ev h) = speechBuffer h @ samplesOf [ev] \<and>
         started (step eng ev h) = started h \<and> processingQueue (step eng ev h) = processingQueue h \<and>
         executing (step eng ev h) = executing h"
  using assms
  by (cases ev) (simp_all add: handleMessage_def Let_def durationMs_def pushThrows_def)

lemma pause_step_emit:
  assumes "noVoice eng ev" and "isCapturingSpeech h"
    and "pauseDuration h + durationMs (length (samplesOf [ev])) > PAUSE_DURATION_THRESHOLD_MS"
    and "durationMs (length (speechBuffer h @ samplesOf [ev])) > MIN_SPEECH_DURATION_MS"
  shows "\<exists>key iid.
           started (step eng ev h) @ processingQueue (step eng ev h) =
             started h @ processingQueue h @
               [ExecuteGraphAudio key (normalizeAudio eng (speechBuffer h @ samplesOf [ev])) iid] \<and>
           \<not> isCapturingSpeech (step eng ev h) \<and> speechBuffer (step eng ev h) = []"
proof (cases ev)
  case (Inbound m k i r)
  with assms show ?thesis
    by (simp add: handleMessage_def Let_def durationMs_def processCapturedSpeech_def
        tasks_addToQueue pushThrows_def)
qed (use assms in simp_all)

lemma pause_step_emit_pause:
  assumes "noVoice eng ev" and "isCapturingSpeech h"
    and "pauseDuration h + durationMs (length (samplesOf [ev])) > PAUSE_DURATION_THRESHOLD_MS"
    and "durationMs (length (speechBuffer h @ samplesOf [ev])) > MIN_SPEECH_DURATION_MS"
  shows "pauseDuration (step eng ev h) = pauseDuration h + durationMs (length (samplesOf [ev]))"
  using assms
  by (cases ev)
    (simp_all add: handleMessage_def Let_def durationMs_def processCapturedSpeech_def
      pushThrows_def)

lemma pause_step_discard:
  assumes "noVoice eng ev" and "isCapturingSpeech h"
    and "pauseDuration h + durationMs (length (samplesOf [ev])) > PAUSE_DURATION_THRESHOLD_MS"
    and "durationMs (length (speechBuffer h @ samplesOf [ev])) \<le> MIN_SPEECH_DURATION_MS"
  shows "\<not> isCapturingSpeech (step eng ev h) \<and>
         speechBuffer (step eng ev h) = speechBuffer h @ samplesOf [ev] \<and>
         started (step eng ev h) = started h \<and> processingQueue (step eng ev h) = processingQueue h \<and>
         executing (step eng ev h) = executing h"
  using assms
  by (cases ev) (simp_all add: handleMessage_def Let_def durationMs_def pushThrows_def)

subsection \<open>Runs of the segmenter\<close>

lemma run_Nil [simp]: "run eng [] h = h"
  by (simp add: run_def)

lemma run_Cons [simp]: "run eng (ev # evs) h = run eng evs (step eng ev h)"
  by (simp add: run_def)

lemma run_append: "run eng (xs @ ys) h = run eng ys (run eng xs h)"
  by (simp add: run_def)

lemma samplesOf_Cons: "samplesOf (ev # evs) = samplesOf [ev] @ samplesOf evs"
  by (cases ev) simp_all

lemma voice_run:
  assumes "list_all (voicePresent eng) vs" and "vs \<noteq> []"
  shows "isCapturingSpeech (run eng vs h) \<and> pauseDuration (run eng vs h) = 0 \<and>
         speechBuffer (run eng vs h) = speechBuffer h @ samplesOf vs \<and>
         started (run eng vs h) = started h \<and> processingQueue (run eng vs h) = processingQueue h"
  using assms
proof (induction vs arbitrary: h)
  case Nil
  then show ?case by simp
next
  case (Cons v vs)
  from Cons.prems have v: "voicePresent eng v" and rest: "list_all (voicePresent eng) vs"
    by simp_all
  note first = voice_step [OF v, of h]
  show ?case
  proof (cases "vs = []")
    case True
    with first show ?thesis by simp
  next
    case False
    from Cons.IH [OF rest False, of "step eng v h"] first show ?thesis
      by (simp add: samplesOf_Cons [of v vs])
  qed
qed

lemma idle_novoice_run:
  assumes "list_all (noVoice eng) ps" and "\<not> isCapturingSpeech h"
  shows "\<not> isCapturingSpeech (run eng ps h) \<and> speechBuffer (run eng ps h) = speechBuffer h \<and>
         started (run eng ps h) = started h \<and> processingQueue (run eng ps h) = processingQueue h"
  using assms
proof (induction ps arbitrary: h)
  case Nil
  then show ?case by simp
next
  case (Cons p ps)
  from Cons.prems have p: "noVoice eng p" and rest: "list_all (noVoice eng) ps"
    by simp_all
  note first = idle_novoice_step [OF p Cons.prems(2)]
  from Cons.IH [OF rest, of "step eng p h"] first show ?case
    by simp
qed

lemma pause_run:
  assumes "list_all (noVoice eng) ps" and "isCapturingSpeech h"
    and "pauseDuration h \<le> PAUSE_DURATION_THRESHOLD_MS"
    and "pauseDuration h + durationMs (length (samplesOf ps)) > PAUSE_DURATION_THRESHOLD_MS"
    and "pauseDuration h \<le> durationMs (length (speechBuffer h))"
  shows "\<exists>k key iid. 0 < k \<and> k \<le> length ps \<and>
           pauseDuration h + durationMs (length (samplesOf (take k ps)))
             > PAUSE_DURATION_THRESHOLD_MS \<and>
           pauseDuration h + durationMs (length (samplesOf (take (k - 1) ps)))
             \<le> PAUSE_DURATION_THRESHOLD_MS \<and>
           started (run eng ps h) @ processingQueue (run eng ps h) =
             started h @ processingQueue h @
               [ExecuteGraphAudio key (normalizeAudio eng (speechBuffer h @ samplesOf (take k ps))) iid] \<and>
           \<not> isCapturingSpeech (run eng ps h) \<and> speechBuffer (run eng ps h) = []"
  using assms
proof (induction ps arbitrary: h)
  case Nil
  then show ?case by (simp add: durationMs_def)
next
  case (Cons p ps)
  from Cons.prems have p: "noVoice eng p" and rest: "list_all (noVoice eng) ps"
    by simp_all
  let ?d = "durationMs (length (samplesOf [p]))"
  have grown: "pauseDuration h + ?d \<le> durationMs (length (speechBuffer h @ samplesOf [p]))"
    using Cons.prems(5) by (simp add: durationMs_add)
  show ?case
  proof (cases "pauseDuration h + ?d > PAUSE_DURATION_THRESHOLD_MS")
    case True
    with grown have long: "durationMs (length (speechBuffer h @ samplesOf [p]))
        > MIN_SPEECH_DURATION_MS"
      by (simp add: PAUSE_DURATION_THRESHOLD_MS_def MIN_SPEECH_DURATION_MS_def)
    from pause_step_emit [OF p Cons.prems(2) True long] obtain key iid where
      emit: "started (step eng p h) @ processingQueue (step eng p h) =
          started h @ processingQueue h @
            [ExecuteGraphAudio key (normalizeAudio eng (speechBuffer h @ samplesOf [p])) iid]"
        "\<not> isCapturingSpeech (step eng p h)" "speechBuffer (step eng p h) = []"
      by blast
    note after = idle_novoice_run [OF rest emit(2)]
    have "0 < Suc 0 \<and> Suc 0 \<le> length (p # ps) \<and>
        pauseDuration h + durationMs (length (samplesOf (take (Suc 0) (p # ps))))
          > PAUSE_DURATION_THRESHOLD_MS \<and>
        pauseDuration h + durationMs (length (samplesOf (take (Suc 0 - 1) (p # ps))))
          \<le> PAUSE_DURATION_THRESHOLD_MS \<and>
        started (run eng (p # ps) h) @ processingQueue (run eng (p # ps) h) =
          started h @ processingQueue h @
            [ExecuteGraphAudio key
               (normalizeAudio eng (speechBuffer h @ samplesOf (take (Suc 0) (p # ps)))) iid] \<and>
        \<not> isCapturingSpeech (run eng (p # ps) h) \<and> speechBuffer (run eng (p # ps) h) = []"
      using True Cons.prems(3) emit after by (simp add: durationMs_def)
    then show ?thesis by blast
  next
    case False
    then have le: "pauseDuration h + ?d \<le> PAUSE_DURATION_THRESHOLD_MS" by simp
    note cont = pause_step_continue [OF p Cons.prems(2) le]
    have split: "samplesOf (p # xs) = samplesOf [p] @ samplesOf xs" for xs
      by (rule samplesOf_Cons)
    have total: "pauseDuration (step eng p h) + durationMs (length (samplesOf ps))
        > PAUSE_DURATION_THRESHOLD_MS"
      using Cons.prems(4) cont by (simp add: split [of ps] durationMs_add)
    have inv: "pauseDuration (step eng p h) \<le> durationMs (length (speechBuffer (step eng p h)))"
      using cont grown by simp
    from Cons.IH [OF rest _ _ total inv] cont le obtain k key iid where
      k: "0 < k" "k \<le> length ps"
        "pauseDuration (step eng p h) + durationMs (length (samplesOf (take k ps)))
           > PAUSE_DURATION_THRESHOLD_MS"
        "pauseDuration (step eng p h) + durationMs (length (samplesOf (take (k - 1) ps)))
           \<le> PAUSE_DURATION_THRESHOLD_MS"
        "started (run eng ps (step eng p h)) @ processingQueue (run eng ps (step eng p h)) =
           started (step eng p h) @ processingQueue (step eng p h) @
             [ExecuteGraphAudio key
                (normalizeAudio eng (speechBuffer (step eng p h) @ samplesOf (take k ps))) iid]"
        "\<not> isCapturingSpeech (run eng ps (step eng p h))" "speechBuffer (run eng ps (step eng p h)) = []"
      by auto
    from k(1) obtain j where j: "k = Suc j" by (cases k) simp_all
    have "0 < Suc k \<and> Suc k \<le> length (p # ps) \<and>
        pauseDuration h + durationMs (length (samplesOf (take (Suc k) (p # ps))))
          > PAUSE_DURATION_THRESHOLD_MS \<and>
        pauseDuration h + durationMs (length (samplesOf (take (Suc k - 1) (p # ps))))
          \<le> PAUSE_DURATION_THRESHOLD_MS \<and>
        started (run eng (p # ps) h) @ processingQueue (run eng (p # ps) h) =
          started h @ processingQueue h @
            [ExecuteGraphAudio key
               (normalizeAudio eng (speechBuffer h @ samplesOf (take (Suc k) (p # ps)))) iid] \<and>
        \<not> isCapturingSpeech (run eng (p # ps) h) \<and> speechBuffer (run eng (p # ps) h) = []"
      using k cont
      by (simp add: j split [of "take j ps"] split [of "take (Suc j) ps"] durationMs_add
          add.assoc)
    then show ?thesis by blast
  qed
qed

text \<open>Voice first, then silence: the general form of the emission property.\<close>

lemma voice_then_pause_emits:
  assumes "speechBuffer h = []"
    and "list_all (voicePresent eng) vs" and "vs \<noteq> []"
    and "list_all (noVoice eng) ps"
    and "durationMs (length (samplesOf ps)) > PAUSE_DURATION_THRESHOLD_MS"
  shows "\<exists>k key iid. 0 < k \<and> k \<le> length ps \<and>
           durationMs (length (samplesOf (take k ps))) > PAUSE_DURATION_THRESHOLD_MS \<and>
           durationMs (length (samplesOf (take (k - 1) ps))) \<le> PAUSE_DURATION_THRESHOLD_MS \<and>
           started (run eng (vs @ ps) h) @ processingQueue (run eng (vs @ ps) h) =
             started h @ processingQueue h @
               [ExecuteGraphAudio key (normalizeAudio eng (samplesOf vs @ samplesOf (take k ps))) iid] \<and>
           \<not> isCapturingSpeech (run eng (vs @ ps) h) \<and> speechBuffer (run eng (vs @ ps) h) = []"
proof -
  note v = voice_run [OF assms(2,3), of h]
  have nonneg: "0 \<le> durationMs n" for n
    by (simp add: durationMs_def INPUT_SAMPLE_RATE_def)
  have "\<exists>k key iid. 0 < k \<and> k \<le> length ps \<and>
      pauseDuration (run eng vs h) + durationMs (length (samplesOf (take k ps)))
        > PAUSE_DURATION_THRESHOLD_MS \<and>
      pauseDuration (run eng vs h) + durationMs (length (samplesOf (take (k - 1) ps)))
        \<le> PAUSE_DURATION_THRESHOLD_MS \<and>
      started (run eng ps (run eng vs h)) @ processingQueue (run eng ps (run eng vs h)) =
        started (run eng vs h) @ processingQueue (run eng vs h) @
          [ExecuteGraphAudio key
             (normalizeAudio eng (speechBuffer (run eng vs h) @ samplesOf (take k ps))) iid] \<and>
      \<not> isCapturingSpeech (run eng ps (run eng vs h)) \<and> speechBuffer (run eng ps (run eng vs h)) = []"
    using v assms(5) nonneg
    by (intro pause_run [OF assms(4)])
      (simp_all add: PAUSE_DURATION_THRESHOLD_MS_def)
  with v assms(1) show ?thesis
    by (simp add: run_append)
qed



lemma pause_run_continue:
  assumes "list_all (noVoice eng) ps" and "isCapturingSpeech h"
    and "pauseDuration h + durationMs (length (samplesOf ps)) \<le> PAUSE_DURATION_THRESHOLD_MS"
  shows "isCapturingSpeech (run eng ps h) \<and>
         pauseDuration (run eng ps h) = pauseDuration h + durationMs (length (samplesOf ps)) \<and>
         speechBuffer (run eng ps h) = speechBuffer h @ samplesOf ps \<and>
         started (run eng ps h) = started h \<and>
         processingQueue (run eng ps h) = processingQueue h"
  using assms
proof (induction ps arbitrary: h)
  case Nil
  then show ?case by (simp add: durationMs_def)
next
  case (Cons p ps)
  from Cons.prems have p: "noVoice eng p" and rest: "list_all (noVoice eng) ps"
    by simp_all
  have split: "samplesOf (p # ps) = samplesOf [p] @ samplesOf ps"
    by (rule samplesOf_Cons)
  have nonneg: "0 \<le> durationMs n" for n
    by (simp add: durationMs_def INPUT_SAMPLE_RATE_def)
  have le: "pauseDuration h + durationMs (length (samplesOf [p])) \<le> PAUSE_DURATION_THRESHOLD_MS"
    using Cons.prems(3) nonneg [of "length (samplesOf ps)"]
    by (simp add: split durationMs_add)
  note cont = pause_step_continue [OF p Cons.prems(2) le]
  have "pauseDuration (step eng p h) + durationMs (length (samplesOf ps))
      \<le> PAUSE_DURATION_THRESHOLD_MS"
    using Cons.prems(3) cont by (simp add: split durationMs_add)
  from Cons.IH [OF rest _ this] cont show ?case
    by (simp add: split durationMs_add)
qed

lemma samplesOf_take: "set (samplesOf (take k evs)) \<subseteq> set (samplesOf evs)"
proof (induction evs arbitrary: k)
  case Nil
  then show ?case by simp
next
  case (Cons ev evs)
  show ?case
  proof (cases k)
    case 0
    then show ?thesis by simp
  next
    case (Suc j)
    with Cons [of j] show ?thesis
      using samplesOf_Cons [of ev evs] samplesOf_Cons [of ev "take j evs"] by auto
  qed
qed

lemma samplesOf_replicate:
  "length (samplesOf (replicate n ev)) = n * length (samplesOf [ev])"
proof (induction n)
  case 0
  then show ?case by simp
next
  case (Suc n)
  then show ?case by (simp add: samplesOf_Cons [of ev "replicate n ev"])
qed

lemma samplesOf_replicate_set:
  "set (samplesOf (replicate n ev)) \<subseteq> set (samplesOf [ev])"
proof (induction n)
  case 0
  then show ?case by simp
next
  case (Suc n)
  then show ?case using samplesOf_Cons [of ev "replicate n ev"] by auto
qed

subsection \<open>The sample inputs\<close>

lemma sampleEngine_bounded: "boundedQuotient sampleEngine"
  unfolding boundedQuotient_def sampleEngine_def
proof (intro allI impI)
  fix y m :: rat
  assume a: "0 < m \<and> \<bar>y\<bar> \<le> m"
  then have "\<bar>y / m\<bar> \<le> 1" by simp
  moreover have "\<bar>y\<bar> = m \<longrightarrow> \<bar>y / m\<bar> = 1" using a by simp
  ultimately show "\<exists>q. fdiv \<lparr>fdiv = \<lambda>x m. Finite (x / m), spreadLimit = 125000\<rparr> y m = Finite q \<and>
      \<bar>q\<bar> \<le> 1 \<and> (\<bar>y\<bar> = m \<longrightarrow> \<bar>q\<bar> = 1)"
    by simp
qed

lemma voiceBatch_props:
  "voicePresent sampleEngine voiceBatch" "fits sampleEngine voiceBatch"
  "samplesOf [voiceBatch] = replicate 1024 (Finite (1 / 2))"
  by (simp_all add: voiceBatch_def audioMessage_def FRAME_PER_BUFFER_def pushThrows_def
      sampleEngine_def)

lemma silentBatch_props:
  "noVoice sampleEngine silentBatch" "fits sampleEngine silentBatch"
  "samplesOf [silentBatch] = replicate 1024 (Finite 0)"
  by (simp_all add: silentBatch_def audioMessage_def FRAME_PER_BUFFER_def pushThrows_def
      sampleEngine_def)

lemma overflowBatch_props:
  "voicePresent sampleEngine overflowBatch"
  "samplesOf [overflowBatch] = PosInfinity # replicate 1023 (Finite (1 / 2))"
  by (simp_all add: overflowBatch_def audioMessage_def FRAME_PER_BUFFER_def pushThrows_def
      sampleEngine_def)

lemma samplesOf_replicate_silent:
  "samplesOf (replicate n silentBatch) = replicate (n * 1024) (Finite 0)"
proof (induction n)
  case 0
  then show ?case by simp
next
  case (Suc n)
  then show ?case
    using samplesOf_Cons [of silentBatch "replicate n silentBatch"]
    by (simp add: silentBatch_props replicate_add)
qed

lemma six_silent:
  "list_all (noVoice sampleEngine) (replicate 6 silentBatch)"
  "durationMs (length (samplesOf (replicate 6 silentBatch))) > PAUSE_DURATION_THRESHOLD_MS"
  by (simp_all add: list_all_iff silentBatch_props samplesOf_replicate durationMs_eight
      PAUSE_DURATION_THRESHOLD_MS_def)

lemma one_voice_five_silent:
  "isCapturingSpeech (run sampleEngine (voiceBatch # replicate 5 silentBatch) newMessageHandler)"
  "pauseDuration (run sampleEngine (voiceBatch # replicate 5 silentBatch) newMessageHandler) = 640"
  "speechBuffer (run sampleEngine (voiceBatch # replicate 5 silentBatch) newMessageHandler) =
     samplesOf (voiceBatch # replicate 5 silentBatch)"
  "started (run sampleEngine (voiceBatch # replicate 5 silentBatch) newMessageHandler) = []"
  "processingQueue (run sampleEngine (voiceBatch # replicate 5 silentBatch) newMessageHandler) = []"
proof -
  let ?first = "step sampleEngine voiceBatch newMessageHandler"
  note v = voice_step [OF voiceBatch_props(1), of newMessageHandler]
  have five: "list_all (noVoice sampleEngine) (replicate 5 silentBatch)"
    by (simp add: list_all_iff silentBatch_props)
  have len5: "durationMs (length (samplesOf (replicate 5 silentBatch))) = 640"
    by (simp add: samplesOf_replicate silentBatch_props durationMs_eight)
  have "pauseDuration ?first + durationMs (length (samplesOf (replicate 5 silentBatch)))
      \<le> PAUSE_DURATION_THRESHOLD_MS"
    using v by (simp add: len5 PAUSE_DURATION_THRESHOLD_MS_def)
  from pause_run_continue [OF five _ this] v
  have "isCapturingSpeech (run sampleEngine (replicate 5 silentBatch) ?first) \<and>
      pauseDuration (run sampleEngine (replicate 5 silentBatch) ?first) = 640 \<and>
      speechBuffer (run sampleEngine (replicate 5 silentBatch) ?first) =
        samplesOf [voiceBatch] @ samplesOf (replicate 5 silentBatch) \<and>
      started (run sampleEngine (replicate 5 silentBatch) ?first) = [] \<and>
      processingQueue (run sampleEngine (replicate 5 silentBatch) ?first) = []"
    by (simp add: len5 newMessageHandler_def)
  then show
    "isCapturingSpeech (run sampleEngine (voiceBatch # replicate 5 silentBatch) newMessageHandler)"
    "pauseDuration (run sampleEngine (voiceBatch # replicate 5 silentBatch) newMessageHandler) = 640"
    "speechBuffer (run sampleEngine (voiceBatch # replicate 5 silentBatch) newMessageHandler) =
       samplesOf (voiceBatch # replicate 5 silentBatch)"
    "started (run sampleEngine (voiceBatch # replicate 5 silentBatch) newMessageHandler) = []"
    "processingQueue (run sampleEngine (voiceBatch # replicate 5 silentBatch) newMessageHandler) = []"
    using samplesOf_Cons [of voiceBatch "replicate 5 silentBatch"] by simp_all
qed

subsection \<open>Unknown tags and the batch gate\<close>

text \<open>
  Claim C10. A message whose type is none of the four known tags leaves the handler as it
  was: the segmenter's fields, the queue, the called tasks and the packets sent.
\<close>

theorem unknown_tag_ignored:
  assumes "msgType m \<noteq> ''text''" and "msgType m \<noteq> ''imageChat''"
    and "msgType m \<noteq> ''audio''" and "msgType m \<noteq> ''audioSessionEnd''"
  shows "handleMessage eng m key interactionId vadResult h = (None, h)"
  using assms by (simp add: handleMessage_def)

text \<open>
  A message of type \<^verbatim>\<open>ping\<close>.
\<close>

theorem unknown_tag_ignored_witness:
  "handleMessage sampleEngine pingMessage ''session'' ''interaction-4'' 0 pausedCapture =
     (None, pausedCapture)"
  by (rule unknown_tag_ignored) (simp_all add: pingMessage_def)

text \<open>
  Claim C6, as amended. The frames of one audio event are flattened into one batch. A batch
  of at least \<open>FRAME_PER_BUFFER\<close> samples is passed to the classifier, as it is; a
  smaller one is passed to nothing and changes nothing.
\<close>

theorem audio_event_is_one_batch:
  assumes "msgType m = ''audio''"
  shows "(length (concat (msgAudio m)) \<ge> FRAME_PER_BUFFER \<longrightarrow>
           classified (snd (handleMessage eng m key interactionId vadResult h)) =
             classified h @ [concat (msgAudio m)]) \<and>
         (length (concat (msgAudio m)) < FRAME_PER_BUFFER \<longrightarrow>
           handleMessage eng m key interactionId vadResult h = (None, h))"
  using assms by (simp add: handleMessage_def Let_def processCapturedSpeech_def)

text \<open>
  A full batch is classified; half a batch is not.
\<close>

theorem audio_event_is_one_batch_witness:
  "classified (step sampleEngine voiceBatch newMessageHandler) = [replicate 1024 (Finite (1 / 2))] \<and>
   step sampleEngine halfBatch newMessageHandler = newMessageHandler"
proof -
  have "classified (snd (handleMessage sampleEngine
      (audioMessage [replicate 1024 (Finite (1 / 2))])
      ''session'' ''interaction-1'' 0 newMessageHandler)) = [replicate 1024 (Finite (1 / 2))]"
    using audio_event_is_one_batch [of "audioMessage [replicate 1024 (Finite (1 / 2))]"
        sampleEngine "''session''" "''interaction-1''" 0 newMessageHandler]
    by (simp add: audioMessage_def FRAME_PER_BUFFER_def newMessageHandler_def)
  moreover have "handleMessage sampleEngine (audioMessage [replicate 512 (Finite 1)]) ''session''
      ''interaction-3'' 0 newMessageHandler = (None, newMessageHandler)"
    using audio_event_is_one_batch [of "audioMessage [replicate 512 (Finite 1)]" sampleEngine
        "''session''" "''interaction-3''" 0 newMessageHandler]
    by (simp add: audioMessage_def FRAME_PER_BUFFER_def)
  ultimately show ?thesis
    by (simp add: voiceBatch_def halfBatch_def)
qed

text \<open>
  Claim C6 as stated fails: two events of 512 samples together reach the batch size, yet
  the handler is as new after them, and the next batch passed to the classifier holds
  none of their samples.
\<close>

theorem small_events_not_accumulated_counterexample:
  "length (samplesOf [halfBatch, halfBatch]) \<ge> FRAME_PER_BUFFER \<and>
   run sampleEngine [halfBatch, halfBatch] newMessageHandler = newMessageHandler \<and>
   classified (run sampleEngine [halfBatch, halfBatch, voiceBatch] newMessageHandler) =
     [replicate 1024 (Finite (1 / 2))]"
  by (simp add: halfBatch_def voiceBatch_def audioMessage_def FRAME_PER_BUFFER_def
      handleMessage_def newMessageHandler_def Let_def pushThrows_def sampleEngine_def)

subsection \<open>The pause threshold and the minimum speech duration\<close>

lemma addToQueue_segmenter [simp]:
  "captureInvariant (addToQueue t h) = captureInvariant h"
  by (simp add: captureInvariant_def)

lemma segmenter_fields_taskSettled [simp]:
  "pauseDuration (taskSettled t oc h) = pauseDuration h"
  "isCapturingSpeech (taskSettled t oc h) = isCapturingSpeech h"
  "speechBuffer (taskSettled t oc h) = speechBuffer h"
  by (simp_all add: taskSettled_def drain_def split: list.splits)

lemma segmenter_fields_taskSends [simp]:
  "pauseDuration (taskSends t p h) = pauseDuration h"
  "isCapturingSpeech (taskSends t p h) = isCapturingSpeech h"
  "speechBuffer (taskSends t p h) = speechBuffer h"
  by (simp_all add: taskSends_def)






text \<open>
  Why the histories above are those whose batches the engine can push, in a process that
  goes on after a rejected call: after one emitted segment the pause accumulator still
  holds 768 ms; a voice batch too large to push then sets the capturing flag and throws
  before the accumulator is reset, and the next silent batch ends that capture with 128 ms
  buffered. Nothing is emitted, and the buffer keeps the silent batch.
\<close>

lemma oversized_batch_reaches_discard:
  "started (run sampleEngine (((voiceBatch # replicate 5 silentBatch) @ [silentBatch]) @
              [oversizedVoice, silentBatch]) newMessageHandler) @
   processingQueue (run sampleEngine (((voiceBatch # replicate 5 silentBatch) @ [silentBatch]) @
              [oversizedVoice, silentBatch]) newMessageHandler) =
     started (run sampleEngine ((voiceBatch # replicate 5 silentBatch) @ [silentBatch])
       newMessageHandler) @
     processingQueue (run sampleEngine ((voiceBatch # replicate 5 silentBatch) @ [silentBatch])
       newMessageHandler) \<and>
   \<not> isCapturingSpeech (run sampleEngine (((voiceBatch # replicate 5 silentBatch) @
        [silentBatch]) @ [oversizedVoice, silentBatch]) newMessageHandler) \<and>
   speechBuffer (run sampleEngine (((voiceBatch # replicate 5 silentBatch) @ [silentBatch]) @
        [oversizedVoice, silentBatch]) newMessageHandler) = replicate 1024 (Finite 0)"
proof -
  let ?evs = "voiceBatch # replicate 5 silentBatch"
  let ?before = "run sampleEngine ?evs newMessageHandler"
  let ?h = "run sampleEngine (?evs @ [silentBatch]) newMessageHandler"
  let ?g = "step sampleEngine oversizedVoice ?h"
  note h0 = one_voice_five_silent
  have eq: "?h = step sampleEngine silentBatch ?before"
    by (simp only: run_append run_Cons run_Nil)
  have over: "pauseDuration ?before + durationMs (length (samplesOf [silentBatch]))
      > PAUSE_DURATION_THRESHOLD_MS"
    by (simp only: h0(2)) (simp add: silentBatch_props durationMs_eight
        PAUSE_DURATION_THRESHOLD_MS_def)
  have long: "durationMs (length (speechBuffer ?before @ samplesOf [silentBatch]))
      > MIN_SPEECH_DURATION_MS"
    using samplesOf_Cons [of voiceBatch "replicate 5 silentBatch"]
    by (simp only: h0(3))
      (simp add: voiceBatch_props silentBatch_props samplesOf_replicate durationMs_eight
        MIN_SPEECH_DURATION_MS_def)
  have h: "\<not> isCapturingSpeech ?h" "speechBuffer ?h = []" "pauseDuration ?h = 768"
    using pause_step_emit [OF silentBatch_props(1) h0(1) over long]
      pause_step_emit_pause [OF silentBatch_props(1) h0(1) over long]
    by (simp_all only: eq h0(2)) (simp_all add: silentBatch_props durationMs_eight)
  have g: "isCapturingSpeech ?g" "speechBuffer ?g = []" "pauseDuration ?g = 768"
    "started ?g = started ?h" "processingQueue ?g = processingQueue ?h"
    using h
    by (simp_all add: oversizedVoice_def audioMessage_def handleMessage_def Let_def
        pushThrows_def sampleEngine_def FRAME_PER_BUFFER_def)
  have gover: "pauseDuration ?g + durationMs (length (samplesOf [silentBatch]))
      > PAUSE_DURATION_THRESHOLD_MS"
    by (simp only: g(3)) (simp add: silentBatch_props durationMs_eight
        PAUSE_DURATION_THRESHOLD_MS_def)
  have gshort: "durationMs (length (speechBuffer ?g @ samplesOf [silentBatch]))
      \<le> MIN_SPEECH_DURATION_MS"
    by (simp only: g(2)) (simp add: silentBatch_props durationMs_eight
        MIN_SPEECH_DURATION_MS_def)
  note d = pause_step_discard [OF silentBatch_props(1) g(1) gover gshort]
  have last: "run sampleEngine ((?evs @ [silentBatch]) @ [oversizedVoice, silentBatch])
      newMessageHandler = step sampleEngine silentBatch ?g"
    by (simp only: run_append run_Cons run_Nil)
  from d show ?thesis
    by (simp only: last g(2,4,5)) (simp add: silentBatch_props)
qed

subsection \<open>The emitted segment\<close>

text \<open>
  Claim C7, as amended. From a handler that is not capturing and whose buffer is empty,
  voice-present batches longer in total than the minimum speech duration, followed by
  no-voice batches whose total pause exceeds the threshold, add exactly one audio task,
  when every batch is one the engine can push and every sample is finite. Its samples are
  the normalized samples of the voice batches and of the no-voice batches up to the first
  one that takes the pause over the threshold; their number is the number of those samples;
  they are finite with maximum absolute value 1 when one of the buffered samples is not
  zero, and they are unchanged when all are zero. The handler is then idle with an empty
  buffer.
\<close>

theorem one_normalized_segment:
  assumes "boundedQuotient eng"
    and "\<not> isCapturingSpeech h" and "speechBuffer h = []"
    and "list_all (voicePresent eng) vs"
    and "durationMs (length (samplesOf vs)) > MIN_SPEECH_DURATION_MS"
    and "list_all (noVoice eng) ps"
    and "durationMs (length (samplesOf ps)) > PAUSE_DURATION_THRESHOLD_MS"
    and "list_all isFinite (samplesOf vs @ samplesOf ps)"
  shows "\<exists>k key iid seg. 0 < k \<and> k \<le> length ps \<and>
           durationMs (length (samplesOf (take k ps))) > PAUSE_DURATION_THRESHOLD_MS \<and>
           durationMs (length (samplesOf (take (k - 1) ps))) \<le> PAUSE_DURATION_THRESHOLD_MS \<and>
           started (run eng (vs @ ps) h) @ processingQueue (run eng (vs @ ps) h) =
             started h @ processingQueue h @ [ExecuteGraphAudio key seg iid] \<and>
           seg = normalizeAudio eng (samplesOf vs @ samplesOf (take k ps)) \<and>
           length seg = length (samplesOf vs) + length (samplesOf (take k ps)) \<and>
           ((\<exists>x\<in>set (samplesOf vs @ samplesOf (take k ps)). x \<noteq> Finite 0) \<longrightarrow>
              list_all isFinite seg \<and> maxAbs seg = Finite 1) \<and>
           ((\<forall>x\<in>set (samplesOf vs @ samplesOf (take k ps)). x = Finite 0) \<longrightarrow>
              seg = samplesOf vs @ samplesOf (take k ps)) \<and>
           \<not> isCapturingSpeech (run eng (vs @ ps) h) \<and> speechBuffer (run eng (vs @ ps) h) = []"
proof -
  have "vs \<noteq> []"
    using assms(5) by (auto simp: durationMs_def MIN_SPEECH_DURATION_MS_def)
  from voice_then_pause_emits [OF assms(3,4) this assms(6,7)] obtain k key iid where
    k: "0 < k" "k \<le> length ps"
      "durationMs (length (samplesOf (take k ps))) > PAUSE_DURATION_THRESHOLD_MS"
      "durationMs (length (samplesOf (take (k - 1) ps))) \<le> PAUSE_DURATION_THRESHOLD_MS"
      "started (run eng (vs @ ps) h) @ processingQueue (run eng (vs @ ps) h) =
         started h @ processingQueue h @
           [ExecuteGraphAudio key (normalizeAudio eng (samplesOf vs @ samplesOf (take k ps))) iid]"
      "\<not> isCapturingSpeech (run eng (vs @ ps) h)" "speechBuffer (run eng (vs @ ps) h) = []"
    by blast
  let ?buf = "samplesOf vs @ samplesOf (take k ps)"
  have fin: "list_all isFinite ?buf"
    using assms(8) samplesOf_take [of k ps] by (auto simp: list_all_iff)
  have peak: "(\<exists>x\<in>set ?buf. x \<noteq> Finite 0) \<longrightarrow>
      list_all isFinite (normalizeAudio eng ?buf) \<and> maxAbs (normalizeAudio eng ?buf) = Finite 1"
    using normalizeAudio_peak [OF assms(1) fin] by blast
  have silent: "(\<forall>x\<in>set ?buf. x = Finite 0) \<longrightarrow> normalizeAudio eng ?buf = ?buf"
    using normalizeAudio_silent [of ?buf eng] by blast
  have len: "length (normalizeAudio eng ?buf) =
      length (samplesOf vs) + length (samplesOf (take k ps))"
    by simp
  from k peak silent len show ?thesis
    by blast
qed

text \<open>
  Two voice batches of 1024 samples and six silent ones.
\<close>

theorem one_normalized_segment_witness:
  "\<exists>k key iid seg. 0 < k \<and> k \<le> 6 \<and>
     started (run sampleEngine ([voiceBatch, voiceBatch] @ replicate 6 silentBatch)
                newMessageHandler) @
     processingQueue (run sampleEngine ([voiceBatch, voiceBatch] @ replicate 6 silentBatch)
                newMessageHandler) =
       [ExecuteGraphAudio key seg iid] \<and>
     length seg = 2048 + length (samplesOf (take k (replicate 6 silentBatch))) \<and>
     maxAbs seg = Finite 1"
proof -
  have two: "samplesOf [voiceBatch, voiceBatch] =
      replicate 1024 (Finite (1 / 2)) @ replicate 1024 (Finite (1 / 2))"
    using samplesOf_Cons [of voiceBatch "[voiceBatch]"] by (simp add: voiceBatch_props)
  have h1: "\<not> isCapturingSpeech newMessageHandler" and h2: "speechBuffer newMessageHandler = []"
    by (simp_all add: newMessageHandler_def)
  have h3: "list_all (voicePresent sampleEngine) [voiceBatch, voiceBatch]"
    by (simp add: voiceBatch_props)
  have h4: "durationMs (length (samplesOf [voiceBatch, voiceBatch])) > MIN_SPEECH_DURATION_MS"
    by (simp add: two durationMs_eight MIN_SPEECH_DURATION_MS_def)
  have sil: "set (samplesOf (replicate 6 silentBatch)) \<subseteq> {Finite 0}"
    using samplesOf_replicate_set [of 6 silentBatch] by (auto simp: silentBatch_props)
  have h7: "list_all isFinite (samplesOf [voiceBatch, voiceBatch] @
      samplesOf (replicate 6 silentBatch))"
    using sil by (auto simp: two list_all_iff)
  from one_normalized_segment [OF sampleEngine_bounded h1 h2 h3 h4 six_silent h7]
  obtain k key iid seg where
    k: "0 < k" "k \<le> length (replicate 6 silentBatch)"
      "started (run sampleEngine ([voiceBatch, voiceBatch] @ replicate 6 silentBatch)
         newMessageHandler) @
       processingQueue (run sampleEngine ([voiceBatch, voiceBatch] @ replicate 6 silentBatch)
         newMessageHandler) =
         started newMessageHandler @ processingQueue newMessageHandler @
           [ExecuteGraphAudio key seg iid]"
      "length seg = length (samplesOf [voiceBatch, voiceBatch]) +
         length (samplesOf (take k (replicate 6 silentBatch)))"
      "(\<exists>x\<in>set (samplesOf [voiceBatch, voiceBatch] @
           samplesOf (take k (replicate 6 silentBatch))). x \<noteq> Finite 0) \<longrightarrow>
         list_all isFinite seg \<and> maxAbs seg = Finite 1"
    by blast
  have "Finite (1 / 2) \<in> set (samplesOf [voiceBatch, voiceBatch] @
      samplesOf (take k (replicate 6 silentBatch)))"
    by (simp add: two)
  then have "\<exists>x\<in>set (samplesOf [voiceBatch, voiceBatch] @
      samplesOf (take k (replicate 6 silentBatch))). x \<noteq> Finite 0"
    by (rule bexI [rotated]) simp
  with k(5) have peak: "maxAbs seg = Finite 1"
    by blast
  have "0 < k \<and> k \<le> 6 \<and>
     started (run sampleEngine ([voiceBatch, voiceBatch] @ replicate 6 silentBatch)
                newMessageHandler) @
     processingQueue (run sampleEngine ([voiceBatch, voiceBatch] @ replicate 6 silentBatch)
                newMessageHandler) =
       [ExecuteGraphAudio key seg iid] \<and>
     length seg = 2048 + length (samplesOf (take k (replicate 6 silentBatch))) \<and>
     maxAbs seg = Finite 1"
    using k(1-4) peak by (simp add: two newMessageHandler_def)
  then show ?thesis
    by blast
qed

text \<open>
  Claim C7 as stated fails. First, with a sample that parsed to \<^verbatim>\<open>Infinity\<close> among the
  voice batches, one segment is emitted and buffered samples are not zero, yet the segment
  is one \<^verbatim>\<open>NaN\<close> followed by zeros: no sample of it has absolute value 1, and the maximum
  computed as \<^verbatim>\<open>normalizeAudio\<close> computes it is \<^verbatim>\<open>NaN\<close>. Second, when the no-voice
  batch is too large for the engine to push, the call throws a \<^verbatim>\<open>RangeError\<close> before the
  pause is accumulated, and no segment is emitted.
\<close>

theorem segment_not_normalized_counterexample:
  "list_all (voicePresent sampleEngine) [overflowBatch, voiceBatch] \<and>
   durationMs (length (samplesOf [overflowBatch, voiceBatch])) > MIN_SPEECH_DURATION_MS \<and>
   list_all (noVoice sampleEngine) (replicate 6 silentBatch) \<and>
   durationMs (length (samplesOf (replicate 6 silentBatch))) > PAUSE_DURATION_THRESHOLD_MS \<and>
   Finite (1 / 2) \<in> set (samplesOf [overflowBatch, voiceBatch]) \<and>
   (\<exists>key iid.
      started (run sampleEngine ([overflowBatch, voiceBatch] @ replicate 6 silentBatch)
         newMessageHandler) @
      processingQueue (run sampleEngine ([overflowBatch, voiceBatch] @ replicate 6 silentBatch)
         newMessageHandler) =
        [ExecuteGraphAudio key (NotANumber # replicate 8191 (Finite 0)) iid]) \<and>
   maxAbs (NotANumber # replicate 8191 (Finite 0)) = NotANumber \<and>
   list_all (voicePresent sampleEngine) [voiceBatch, voiceBatch] \<and>
   durationMs (length (samplesOf [voiceBatch, voiceBatch])) > MIN_SPEECH_DURATION_MS \<and>
   durationMs (length (samplesOf [oversizedSilence])) > PAUSE_DURATION_THRESHOLD_MS \<and>
   fst (handleMessage sampleEngine (audioMessage [replicate 130000 (Finite 0)]) ''session''
          ''interaction-6'' (- 1) (run sampleEngine [voiceBatch, voiceBatch] newMessageHandler)) =
     Some RangeError \<and>
   started (run sampleEngine ([voiceBatch, voiceBatch] @ [oversizedSilence])
      newMessageHandler) @
   processingQueue (run sampleEngine ([voiceBatch, voiceBatch] @ [oversizedSilence])
      newMessageHandler) = []"
proof -
  have two: "samplesOf [overflowBatch, voiceBatch] =
      (PosInfinity # replicate 1023 (Finite (1 / 2))) @ replicate 1024 (Finite (1 / 2))"
    using samplesOf_Cons [of overflowBatch "[voiceBatch]"]
    by (simp add: voiceBatch_props overflowBatch_props)
  have c1: "list_all (voicePresent sampleEngine) [overflowBatch, voiceBatch]"
    by (simp add: voiceBatch_props overflowBatch_props)
  have c2: "durationMs (length (samplesOf [overflowBatch, voiceBatch])) > MIN_SPEECH_DURATION_MS"
    by (simp add: two durationMs_eight MIN_SPEECH_DURATION_MS_def)
  have half: "Finite (1 / 2) \<in> set (samplesOf [overflowBatch, voiceBatch])"
    by (simp add: two)
  from voice_then_pause_emits [of newMessageHandler sampleEngine "[overflowBatch, voiceBatch]"
      "replicate 6 silentBatch", OF _ c1 _ six_silent]
  obtain k key iid where
    k: "0 < k" "k \<le> 6"
      "durationMs (length (samplesOf (take k (replicate 6 silentBatch))))
         > PAUSE_DURATION_THRESHOLD_MS"
      "started (run sampleEngine ([overflowBatch, voiceBatch] @ replicate 6 silentBatch)
         newMessageHandler) @
       processingQueue (run sampleEngine ([overflowBatch, voiceBatch] @ replicate 6 silentBatch)
         newMessageHandler) =
          [ExecuteGraphAudio key
             (normalizeAudio sampleEngine
                (samplesOf [overflowBatch, voiceBatch] @
                 samplesOf (take k (replicate 6 silentBatch)))) iid]"
    by (auto simp: newMessageHandler_def)
  have dk: "durationMs (length (samplesOf (take k (replicate 6 silentBatch)))) = of_nat k * 128"
    using k(2) by (simp add: samplesOf_replicate_silent durationMs_eight min_absorb1)
  have six: "k = 6"
  proof (rule ccontr)
    assume "k \<noteq> 6"
    with k(2) have "k \<le> 5" by simp
    then have small: "(of_nat k :: rat) \<le> 5" by simp
    from k(3) have "(of_nat k :: rat) * 128 > 650"
      by (simp only: dk PAUSE_DURATION_THRESHOLD_MS_def)
    with small show False by simp
  qed
  let ?buf = "samplesOf [overflowBatch, voiceBatch] @ samplesOf (take 6 (replicate 6 silentBatch))"
  have buf: "?buf = (PosInfinity # replicate 1023 (Finite (1 / 2))) @
      replicate 1024 (Finite (1 / 2)) @ replicate 6144 (Finite 0)"
    by (simp add: two samplesOf_replicate_silent)
  have "normalizeAudio sampleEngine ?buf = map (\<lambda>x. numDiv sampleEngine x PosInfinity) ?buf"
    by (rule normalizeAudio_infinity; simp only: buf; simp)
  also have "\<dots> = NotANumber # replicate 1023 (Finite 0) @ replicate 1024 (Finite 0) @
      replicate 6144 (Finite 0)"
    by (simp only: buf) simp
  also have "\<dots> = NotANumber # replicate 8191 (Finite 0)"
    by (simp add: replicate_add [symmetric])
  finally have seg: "normalizeAudio sampleEngine ?buf = NotANumber # replicate 8191 (Finite 0)" .
  from k(4) have first: "\<exists>key iid.
      started (run sampleEngine ([overflowBatch, voiceBatch] @ replicate 6 silentBatch)
         newMessageHandler) @
      processingQueue (run sampleEngine ([overflowBatch, voiceBatch] @ replicate 6 silentBatch)
         newMessageHandler) =
        [ExecuteGraphAudio key (NotANumber # replicate 8191 (Finite 0)) iid]"
    by (simp only: six seg) blast
  have peak: "maxAbs (NotANumber # replicate 8191 (Finite 0)) = NotANumber"
    by (simp add: maxAbs_def nan_fold)
  have vv: "samplesOf [voiceBatch, voiceBatch] =
      replicate 1024 (Finite (1 / 2)) @ replicate 1024 (Finite (1 / 2))"
    using samplesOf_Cons [of voiceBatch "[voiceBatch]"] by (simp add: voiceBatch_props)
  have d1: "list_all (voicePresent sampleEngine) [voiceBatch, voiceBatch]"
    by (simp add: voiceBatch_props)
  have d2: "durationMs (length (samplesOf [voiceBatch, voiceBatch])) > MIN_SPEECH_DURATION_MS"
    by (simp add: vv durationMs_eight MIN_SPEECH_DURATION_MS_def)
  have d3: "durationMs (length (samplesOf [oversizedSilence])) > PAUSE_DURATION_THRESHOLD_MS"
    by (simp add: oversizedSilence_def audioMessage_def durationMs_eight
        PAUSE_DURATION_THRESHOLD_MS_def)
  let ?c = "run sampleEngine [voiceBatch, voiceBatch] newMessageHandler"
  from voice_run [OF d1, of newMessageHandler]
  have c: "isCapturingSpeech ?c" "started ?c = []" "processingQueue ?c = []"
    by (simp_all add: newMessageHandler_def)
  have throws: "fst (handleMessage sampleEngine (audioMessage [replicate 130000 (Finite 0)])
      ''session'' ''interaction-6'' (- 1) ?c) = Some RangeError"
    using c(1)
    by (simp add: audioMessage_def handleMessage_def Let_def pushThrows_def sampleEngine_def
        FRAME_PER_BUFFER_def)
  have runeq: "run sampleEngine ([voiceBatch, voiceBatch] @ [oversizedSilence])
      newMessageHandler = step sampleEngine oversizedSilence ?c"
    by (simp only: run_append run_Cons run_Nil)
  have stays: "started (step sampleEngine oversizedSilence ?c) = started ?c"
    "processingQueue (step sampleEngine oversizedSilence ?c) = processingQueue ?c"
    using c(1)
    by (simp_all add: oversizedSilence_def audioMessage_def handleMessage_def Let_def
        pushThrows_def sampleEngine_def FRAME_PER_BUFFER_def)
  have second: "started (run sampleEngine ([voiceBatch, voiceBatch] @ [oversizedSilence])
      newMessageHandler) @
    processingQueue (run sampleEngine ([voiceBatch, voiceBatch] @ [oversizedSilence])
      newMessageHandler) = []"
    by (simp only: runeq stays c(2,3)) simp
  from c1 c2 six_silent half first peak d1 d2 d3 throws second show ?thesis
    by (intro conjI)
qed

subsection \<open>The queue stays serial in every run of the handler\<close>

text \<open>
  Whatever messages arrive and whatever tasks send or settle, at most one called task is
  pending: the handler reaches its queue through \<^verbatim>\<open>addToQueue\<close> only.
\<close>

lemma serial_segmenter_fields [simp]:
  "serial (h\<lparr>speechBuffer := b\<rparr>) = serial h"
  "serial (h\<lparr>pauseDuration := p\<rparr>) = serial h"
  "serial (h\<lparr>isCapturingSpeech := c\<rparr>) = serial h"
  "serial (h\<lparr>classified := cl\<rparr>) = serial h"
  "serial (h\<lparr>sent := s\<rparr>) = serial h"
  by (simp_all add: serial_def)

lemma serial_step: "serial h \<Longrightarrow> serial (step eng ev h)"
proof (cases ev)
  case (Inbound m k i r)
  assume "serial h"
  then show ?thesis
    by (simp add: Inbound handleMessage_def Let_def processCapturedSpeech_def serial_addToQueue)
next
  case (Sends t p)
  assume "serial h"
  then show ?thesis by (simp add: Sends taskSends_def)
next
  case (Settles t oc)
  assume "serial h"
  then show ?thesis by (simp add: Settles serial_taskSettled)
qed

lemma serial_run: "serial (run eng evs newMessageHandler)"
proof -
  have "serial h \<Longrightarrow> serial (run eng evs h)" for h
    by (induction evs arbitrary: h) (simp_all add: serial_step)
  then show ?thesis by (simp add: serial_new)
qed

end
